theory Spec2Isabelle
  imports Main "HOL-Library.Product_Lexorder" "HOL-Library.Multiset"
begin

section \<open>JavaScript values used by the server\<close>

text \<open>
  The handlers of \<^verbatim>\<open>index.js\<close> read string-valued fields of JSON payloads that may be
  absent (\<^verbatim>\<open>undefined\<close>), \<^verbatim>\<open>null\<close> or a string. The code only ever tests them for
  truthiness (\<^verbatim>\<open>a || b\<close>, \<^verbatim>\<open>!id\<close>), against \<^verbatim>\<open>undefined\<close> or for equality
  (\<^verbatim>\<open>x.id === id\<close>).
\<close>

datatype jstr = Undefined | Null | Str string

fun truthy :: "jstr \<Rightarrow> bool" where
  "truthy (Str s) = (s \<noteq> [])"
| "truthy Undefined = False"
| "truthy Null = False"

text \<open>\<^verbatim>\<open>String(v)\<close>, which is also how a value is turned into a property key.\<close>

fun str_of :: "jstr \<Rightarrow> string" where
  "str_of (Str s) = s"
| "str_of Undefined = ''undefined''"
| "str_of Null = ''null''"

text \<open>\<^verbatim>\<open>a || b\<close> on such values.\<close>

definition jor :: "jstr \<Rightarrow> jstr \<Rightarrow> jstr" where
  "jor a b = (if truthy a then a else b)"

text \<open>Truthiness of an optional boolean field (\<^verbatim>\<open>other.locked\<close>, \<^verbatim>\<open>!!t.completed\<close>).\<close>

fun truthyb :: "bool option \<Rightarrow> bool" where
  "truthyb (Some b) = b"
| "truthyb None = False"

text \<open>\<^verbatim>\<open>Array.prototype.includes\<close> on an array of strings.\<close>

fun array_includes :: "string list \<Rightarrow> jstr \<Rightarrow> bool" where
  "array_includes xs (Str s) = (s \<in> set xs)"
| "array_includes xs Undefined = False"
| "array_includes xs Null = False"

text \<open>\<^verbatim>\<open>Array.prototype.findIndex\<close>; \<open>None\<close> stands for \<^verbatim>\<open>-1\<close>.\<close>

fun findIndex :: "('a \<Rightarrow> bool) \<Rightarrow> 'a list \<Rightarrow> nat option" where
  "findIndex P [] = None"
| "findIndex P (x # xs) = (if P x then Some 0 else map_option Suc (findIndex P xs))"

text \<open>Decimal rendering of a number, as in \<^verbatim>\<open>'m_' + Date.now()\<close>.\<close>

definition digit :: "nat \<Rightarrow> char" where
  "digit n = ''0123456789'' ! n"

function decimal :: "nat \<Rightarrow> string" where
  "decimal n = (if n < 10 then [digit n] else decimal (n div 10) @ [digit (n mod 10)])"
  by pat_completeness auto
termination
  by (relation "measure (\<lambda>n. n)") auto

declare decimal.simps [simp del]

section \<open>Data model\<close>

text \<open>
  A task object as the in-memory store holds it and as every message carries it, by the
  ten properties the server reads or writes (an object may have others, which the model
  does not represent). Objects built by \<^verbatim>\<open>todo:add\<close> have every property; the objects
  built by \<^verbatim>\<open>todo:reorder\<close> may have \<^verbatim>\<open>position\<close> only, so every other property is
  optional (\<open>Undefined\<close>, \<open>None\<close>).
\<close>

record todo =
  t_id :: jstr
  t_text :: jstr
  t_completed :: "bool option"
  t_category :: jstr
  t_priority :: jstr
  t_dueDate :: jstr
  t_dueTime :: jstr
  t_dependencies :: "string list option"
  t_locked :: "bool option"
  t_position :: int

text \<open>
  A document of the \<^verbatim>\<open>Todo\<close> collection (\<^verbatim>\<open>models/Todo.js\<close>): the schema gives every
  field a default, and \<^verbatim>\<open>timestamps: true\<close> adds \<^verbatim>\<open>createdAt\<close> and \<^verbatim>\<open>updatedAt\<close>.
  \<open>d_id\<close> is the document's \<^verbatim>\<open>ObjectId\<close>, written as the string \<^verbatim>\<open>String(d._id)\<close>.
\<close>

record doc =
  d_id :: string
  d_text :: jstr
  d_completed :: bool
  d_category :: jstr
  d_priority :: jstr
  d_dueDate :: jstr
  d_dueTime :: jstr
  d_dependencies :: "string list"
  d_locked :: bool
  d_position :: int
  d_createdAt :: nat
  d_updatedAt :: nat

text \<open>
  The payload of \<^verbatim>\<open>todo:add\<close> and \<^verbatim>\<open>todo:edit\<close>. \<open>p_dependencies = None\<close> stands for a
  payload whose \<^verbatim>\<open>dependencies\<close> is absent or not an array; \<open>p_completed\<close> is the
  truthiness of \<^verbatim>\<open>completed\<close>.
\<close>

record payload =
  p_id :: jstr
  p_text :: jstr
  p_completed :: bool
  p_category :: jstr
  p_priority :: jstr
  p_dueDate :: jstr
  p_dueTime :: jstr
  p_dependencies :: "string list option"

text \<open>
  What one call of \<^verbatim>\<open>handleMessage\<close> takes from outside the two source files:
  \<^item> the clock (one call reads it several times; the model takes one reading for all);
  \<^item> the result of \<^verbatim>\<open>new Date(s)\<close> in epoch milliseconds, \<open>None\<close> for an invalid date;
  \<^item> mongoose's cast of a string to an \<^verbatim>\<open>ObjectId\<close>, which every query on \<^verbatim>\<open>_id\<close>
    applies to the strings it is given: the result is written as a string like \<open>d_id\<close>,
    and \<open>None\<close> stands for the \<^verbatim>\<open>CastError\<close> thrown for a string that is no
    \<^verbatim>\<open>ObjectId\<close>. Which strings are accepted depends on the version of the library (24
    hexadecimal digits are, in every version; \<open>castHex\<close> below);
  \<^item> the \<^verbatim>\<open>ObjectId\<close> mongoose generates for the \<open>i\<close>-th document it inserts.
\<close>

record env =
  now :: nat
  parseDate :: "string \<Rightarrow> int option"
  castObjectId :: "string \<Rightarrow> string option"
  objectId :: "nat \<Rightarrow> string"

datatype msg =
    SyncReplace "todo list"
  | SyncUpdate todo
  | SyncConfirm jstr jstr
  | Reminder jstr string

text \<open>
  \<open>Send\<close> is \<^verbatim>\<open>ws.send\<close> to the requester, \<open>Broadcast\<close> is \<^verbatim>\<open>broadcast(m)\<close> and
  \<open>BroadcastExcept\<close> is \<^verbatim>\<open>broadcast(m, ws)\<close>, which skips the requester.
\<close>

datatype out = Send msg | Broadcast msg | BroadcastExcept msg

datatype request =
    SyncRequest
  | TodoAdd payload
  | TodoEdit payload
  | TodoRemove jstr
  | TodoToggle jstr
  | ClearCompleted
  | ClearAll
  | Reorder "string list"
  | RestoreMany "todo list"

text \<open>
  The exceptions a handler can meet. The caller of \<^verbatim>\<open>handleMessage\<close> ignores them
  (\<^verbatim>\<open>catch (err) { // ignore malformed }\<close>): an exception ends the handler, keeping the
  writes and the messages made so far.
\<close>

datatype error = CastError | ValidationError | DuplicateKey

section \<open>Dependency resolver\<close>

definition day :: int where
  "day = 24 * 60 * 60 * 1000"

text \<open>
  \<^verbatim>\<open>new Date(dueDate + (dueTime ? ('T' + dueTime + ':00') : 'T00:00:00'))\<close>: the due
  instant, \<open>None\<close> when the string is no date.
\<close>

definition dueTarget :: "env \<Rightarrow> jstr \<Rightarrow> jstr \<Rightarrow> int option" where
  "dueTarget e dueDate dueTime =
     parseDate e
       (str_of dueDate @
         (if truthy dueTime then ''T'' @ str_of dueTime @ '':00'' else ''T00:00:00''))"

definition computePriorityByDue :: "env \<Rightarrow> jstr \<Rightarrow> jstr \<Rightarrow> jstr" where
  "computePriorityByDue e dueDate dueTime =
     (if \<not> truthy dueDate then Null
      else
        (case dueTarget e dueDate dueTime of
           None \<Rightarrow> Null
         | Some target \<Rightarrow>
             (let diff = target - int (now e) in
              if diff \<le> 0 then Str ''high''
              else if diff \<le> day then Str ''high''
              else if diff \<le> 3 * day then Str ''medium''
              else Null)))"

text \<open>The in-memory branch of \<^verbatim>\<open>computeLockedFor\<close>.\<close>

definition blocked_mem :: "todo list \<Rightarrow> string \<Rightarrow> bool" where
  "blocked_mem s dep =
     (case find (\<lambda>x. t_id x = Str dep) s of
        None \<Rightarrow> True
      | Some t \<Rightarrow> \<not> truthyb (t_completed t))"

definition computeLockedFor_mem :: "todo list \<Rightarrow> string list \<Rightarrow> bool" where
  "computeLockedFor_mem s deps =
     (if deps = [] then False else list_ex (blocked_mem s) deps)"

text \<open>
  The MongoDB branch: \<^verbatim>\<open>Todo.find({ _id: { $in: deps } })\<close> casts every listed string to
  an \<^verbatim>\<open>ObjectId\<close> (one that cannot be cast makes the query throw) and returns the
  documents whose id is among them; the task is locked unless all of them are completed.
\<close>

definition computeLockedFor_mongo :: "env \<Rightarrow> doc list \<Rightarrow> string list \<Rightarrow> error + bool" where
  "computeLockedFor_mongo e docs deps =
     (if deps = [] then Inr False
      else
        (case those (map (castObjectId e) deps) of
           None \<Rightarrow> Inl CastError
         | Some oids \<Rightarrow>
             Inr (\<not> list_all d_completed (filter (\<lambda>d. d_id d \<in> set oids) docs))))"

section \<open>The in-memory backend\<close>

definition getAllTodos_mem :: "todo list \<Rightarrow> todo list" where
  "getAllTodos_mem s = s"

definition new_todo_mem :: "env \<Rightarrow> payload \<Rightarrow> todo list \<Rightarrow> todo" where
  "new_todo_mem e p s =
     (let ident = ''m_'' @ decimal (now e);
          auto = computePriorityByDue e (p_dueDate p) (p_dueTime p);
          priority = jor (p_priority p) (jor auto (Str ''low''));
          deps = (case p_dependencies p of Some ds \<Rightarrow> ds | None \<Rightarrow> []);
          locked = computeLockedFor_mem s deps
      in \<lparr> t_id = Str ident, t_text = p_text p, t_completed = Some (p_completed p),
           t_category = jor (p_category p) (Str ''other''), t_priority = priority,
           t_dueDate = jor (p_dueDate p) Null, t_dueTime = jor (p_dueTime p) Null,
           t_dependencies = Some deps, t_locked = Some locked,
           t_position = int (length s) \<rparr>)"

definition add_mem :: "env \<Rightarrow> payload \<Rightarrow> todo list \<Rightarrow> todo list \<times> out list" where
  "add_mem e p s =
     (let obj = new_todo_mem e p s
      in (obj # s,
          (if truthy (p_id p) then [Send (SyncConfirm (p_id p) (t_id obj))] else []) @
          [BroadcastExcept (SyncUpdate obj)]))"

definition edit_fields_mem :: "env \<Rightarrow> payload \<Rightarrow> todo \<Rightarrow> todo" where
  "edit_fields_mem e p t =
     (let auto = computePriorityByDue e (p_dueDate p) (p_dueTime p) in
      t \<lparr> t_text := (if p_text p \<noteq> Undefined then p_text p else t_text t),
          t_category :=
            (if p_category p \<noteq> Undefined then jor (p_category p) (t_category t)
             else t_category t),
          t_dueDate := (if p_dueDate p \<noteq> Undefined then jor (p_dueDate p) Null else t_dueDate t),
          t_dueTime := (if p_dueTime p \<noteq> Undefined then jor (p_dueTime p) Null else t_dueTime t),
          t_priority := jor (p_priority p) (jor auto (jor (t_priority t) (Str ''low''))),
          t_dependencies :=
            (case p_dependencies p of Some ds \<Rightarrow> Some ds | None \<Rightarrow> t_dependencies t) \<rparr>)"

definition edit_mem :: "env \<Rightarrow> payload \<Rightarrow> todo list \<Rightarrow> todo list \<times> out list" where
  "edit_mem e p s =
     (if \<not> truthy (p_id p) then (s, [])
      else
        (case findIndex (\<lambda>x. t_id x = p_id p) s of
           None \<Rightarrow> (s, [])
         | Some idx \<Rightarrow>
             (let t1 = edit_fields_mem e p (s ! idx);
                  s1 = s[idx := t1];
                  locked = computeLockedFor_mem s1
                             (case t_dependencies t1 of Some ds \<Rightarrow> ds | None \<Rightarrow> []);
                  t2 = t1 \<lparr> t_locked := Some locked \<rparr>
              in (s1[idx := t2], [Broadcast (SyncUpdate t2)]))))"

definition remove_mem :: "jstr \<Rightarrow> todo list \<Rightarrow> todo list \<times> out list" where
  "remove_mem ident s =
     (if \<not> truthy ident then (s, [])
      else
        (let s1 = filter (\<lambda>x. t_id x \<noteq> ident) s
         in (s1, [Broadcast (SyncReplace s1)])))"

text \<open>
  The body of the loop \<^verbatim>\<open>for (const other of inMemory)\<close> of \<^verbatim>\<open>todo:toggle\<close>, at index
  \<open>i\<close>: the store is threaded through because the loop writes \<^verbatim>\<open>other.locked\<close>. The
  dash of the reminder's text is written as a hyphen here.
\<close>

definition unlock_step :: "jstr \<Rightarrow> todo list \<times> out list \<Rightarrow> nat \<Rightarrow> todo list \<times> out list" where
  "unlock_step done acc i =
     (case acc of (s, outs) \<Rightarrow>
        (let other = s ! i in
         case t_dependencies other of
           None \<Rightarrow> (s, outs)
         | Some ds \<Rightarrow>
             if array_includes ds done then
               (let locked = list_ex (blocked_mem s) ds in
                if \<not> locked \<and> truthyb (t_locked other) then
                  (let other' = other \<lparr> t_locked := Some False \<rparr>
                   in (s[i := other'],
                       outs @ [Broadcast (SyncUpdate other'),
                               Broadcast (Reminder (t_id other)
                                 ''A dependency finished - this task is unlocked.'')]))
                else (s, outs))
             else (s, outs)))"

definition unlock_loop :: "jstr \<Rightarrow> todo list \<Rightarrow> todo list \<times> out list" where
  "unlock_loop done s = foldl (unlock_step done) (s, []) [0..<length s]"

definition toggle_mem :: "jstr \<Rightarrow> todo list \<Rightarrow> todo list \<times> out list" where
  "toggle_mem ident s =
     (if \<not> truthy ident then (s, [])
      else
        (case findIndex (\<lambda>x. t_id x = ident) s of
           None \<Rightarrow> (s, [])
         | Some idx \<Rightarrow>
             (let t = (s ! idx) \<lparr> t_completed := Some (\<not> truthyb (t_completed (s ! idx))) \<rparr>;
                  s1 = s[idx := t];
                  out1 = [Broadcast (SyncUpdate t)]
              in if truthyb (t_completed t) then
                   (case unlock_loop (t_id t) s1 of (s2, out2) \<Rightarrow> (s2, out1 @ out2))
                 else (s1, out1))))"

definition clearCompleted_mem :: "todo list \<Rightarrow> todo list \<times> out list" where
  "clearCompleted_mem s =
     (let s1 = filter (\<lambda>x. \<not> truthyb (t_completed x)) s in (s1, [Broadcast (SyncReplace s1)]))"

definition clearAll_mem :: "todo list \<Rightarrow> todo list \<times> out list" where
  "clearAll_mem s = ([], [Broadcast (SyncReplace [])])"

text \<open>
  \<^verbatim>\<open>todo:reorder\<close> fills the object \<^verbatim>\<open>map = {}\<close> with \<^verbatim>\<open>map[t.id] = t\<close> for each task and
  reads \<^verbatim>\<open>map[id]\<close> for each listed id. The key of a task is \<^verbatim>\<open>String(t.id)\<close>, and a
  later task replaces an earlier one of the same key. A plain object is not an empty
  table:
  \<^item> it inherits the properties of \<^verbatim>\<open>Object.prototype\<close>, whose values are functions
    (an object for \<^verbatim>\<open>__proto__\<close>): truthy, and without a property of a task;
  \<^item> the assignment \<^verbatim>\<open>map['__proto__'] = t\<close> stores nothing under that key, it makes \<open>t\<close>
    the prototype of \<^verbatim>\<open>map\<close>: from then on \<^verbatim>\<open>map['__proto__']\<close> reads \<open>t\<close>, and a key that
    is the name of a property of \<open>t\<close> reads the value of that property (a string, a
    boolean, a number or an array, none of which has a property of a task).
\<close>

definition object_prototype_keys :: "string list" where
  "object_prototype_keys =
     [''constructor'', ''__defineGetter__'', ''__defineSetter__'', ''hasOwnProperty'',
      ''__lookupGetter__'', ''__lookupSetter__'', ''isPrototypeOf'', ''propertyIsEnumerable'',
      ''toString'', ''valueOf'', ''__proto__'', ''toLocaleString'']"

text \<open>Truthiness of \<^verbatim>\<open>p[key]\<close> for a task \<open>p\<close>.\<close>

definition property_truthy :: "todo \<Rightarrow> string \<Rightarrow> bool" where
  "property_truthy p key =
     (if key = ''id'' then truthy (t_id p)
      else if key = ''text'' then truthy (t_text p)
      else if key = ''completed'' then truthyb (t_completed p)
      else if key = ''category'' then truthy (t_category p)
      else if key = ''priority'' then truthy (t_priority p)
      else if key = ''dueDate'' then truthy (t_dueDate p)
      else if key = ''dueTime'' then truthy (t_dueTime p)
      else if key = ''dependencies'' then t_dependencies p \<noteq> None
      else if key = ''locked'' then truthyb (t_locked p)
      else if key = ''position'' then t_position p \<noteq> 0
      else False)"

text \<open>
  What \<^verbatim>\<open>map[id]\<close> reads: a task, another truthy value, or a falsy value (\<^verbatim>\<open>undefined\<close>
  for a key that is not there).
\<close>

datatype found = Task todo | Other | Nothing

definition lookup :: "todo list \<Rightarrow> string \<Rightarrow> found" where
  "lookup s key =
     (let proto = find (\<lambda>t. str_of (t_id t) = ''__proto__'') (rev s) in
      if key = ''__proto__'' then
        (case proto of Some p \<Rightarrow> Task p | None \<Rightarrow> Other)
      else
        (case find (\<lambda>t. str_of (t_id t) = key) (rev s) of
           Some t \<Rightarrow> Task t
         | None \<Rightarrow>
             if (case proto of Some p \<Rightarrow> property_truthy p key | None \<Rightarrow> False) \<or>
                key \<in> set object_prototype_keys
             then Other else Nothing))"

text \<open>
  The entry \<^verbatim>\<open>{ ...(map[id] || { id, text: '', completed: false }), position: i }\<close>: the
  spread of a truthy value that is no task leaves \<^verbatim>\<open>position\<close> as the entry's only
  property of a task.
\<close>

definition placeholder :: "string \<Rightarrow> todo" where
  "placeholder ident =
     \<lparr> t_id = Str ident, t_text = Str [], t_completed = Some False, t_category = Undefined,
       t_priority = Undefined, t_dueDate = Undefined, t_dueTime = Undefined,
       t_dependencies = None, t_locked = None, t_position = 0 \<rparr>"

definition blank :: todo where
  "blank =
     \<lparr> t_id = Undefined, t_text = Undefined, t_completed = None, t_category = Undefined,
       t_priority = Undefined, t_dueDate = Undefined, t_dueTime = Undefined,
       t_dependencies = None, t_locked = None, t_position = 0 \<rparr>"

definition reorder_entry :: "todo list \<Rightarrow> nat \<times> string \<Rightarrow> todo" where
  "reorder_entry s ix =
     (case ix of (i, ident) \<Rightarrow>
        (case lookup s ident of
           Task t \<Rightarrow> t
         | Other \<Rightarrow> blank
         | Nothing \<Rightarrow> placeholder ident) \<lparr> t_position := int i \<rparr>)"

definition reorder_mem :: "string list \<Rightarrow> todo list \<Rightarrow> todo list \<times> out list" where
  "reorder_mem order s =
     (let s1 = map (reorder_entry s) (enumerate 0 order)
      in (s1, [Broadcast (SyncReplace s1)]))"

definition restoreMany_mem :: "todo list \<Rightarrow> todo list \<Rightarrow> todo list \<times> out list" where
  "restoreMany_mem items s =
     (let s1 = items @ s in (s1, [Broadcast (SyncReplace s1)]))"

fun handleMessage_mem :: "env \<Rightarrow> request \<Rightarrow> todo list \<Rightarrow> todo list \<times> out list" where
  "handleMessage_mem e SyncRequest s = (s, [Send (SyncReplace (getAllTodos_mem s))])"
| "handleMessage_mem e (TodoAdd p) s = add_mem e p s"
| "handleMessage_mem e (TodoEdit p) s = edit_mem e p s"
| "handleMessage_mem e (TodoRemove i) s = remove_mem i s"
| "handleMessage_mem e (TodoToggle i) s = toggle_mem i s"
| "handleMessage_mem e ClearCompleted s = clearCompleted_mem s"
| "handleMessage_mem e ClearAll s = clearAll_mem s"
| "handleMessage_mem e (Reorder order) s = reorder_mem order s"
| "handleMessage_mem e (RestoreMany items) s = restoreMany_mem items s"

section \<open>The MongoDB backend\<close>

text \<open>
  The collection is the list of its documents in insertion order. \<^verbatim>\<open>_id\<close> is the
  collection's unique key, so the by-id operations below touch at most one document.
\<close>

definition todo_of_doc :: "doc \<Rightarrow> todo" where
  "todo_of_doc d =
     \<lparr> t_id = Str (d_id d), t_text = d_text d, t_completed = Some (d_completed d),
       t_category = d_category d, t_priority = d_priority d,
       t_dueDate = jor (d_dueDate d) Null, t_dueTime = jor (d_dueTime d) Null,
       t_dependencies = Some (d_dependencies d), t_locked = Some (d_locked d),
       t_position = d_position d \<rparr>"

text \<open>\<^verbatim>\<open>Todo.find({}).sort({ position: 1, createdAt: -1 })\<close>.\<close>

definition sort_docs :: "doc list \<Rightarrow> doc list" where
  "sort_docs docs = sort_key (\<lambda>d. (d_position d, - int (d_createdAt d))) docs"

definition getAllTodos_mongo :: "doc list \<Rightarrow> todo list" where
  "getAllTodos_mongo docs = map todo_of_doc (sort_docs docs)"

text \<open>
  Reading, updating and deleting the document of a given \<^verbatim>\<open>ObjectId\<close>. This is what
  \<^verbatim>\<open>Todo.findById\<close>, \<^verbatim>\<open>Todo.findByIdAndUpdate\<close> and \<^verbatim>\<open>Todo.findByIdAndDelete\<close> do when
  they are given an \<^verbatim>\<open>ObjectId\<close> (\<^verbatim>\<open>dep._id\<close> in the loop of \<^verbatim>\<open>todo:toggle\<close>).
\<close>

definition docById :: "string \<Rightarrow> doc list \<Rightarrow> doc option" where
  "docById oid docs = find (\<lambda>d. d_id d = oid) docs"

definition updateById :: "string \<Rightarrow> (doc \<Rightarrow> doc) \<Rightarrow> doc list \<Rightarrow> doc list" where
  "updateById oid f docs = map (\<lambda>d. if d_id d = oid then f d else d) docs"

definition deleteById :: "string \<Rightarrow> doc list \<Rightarrow> doc list" where
  "deleteById oid docs = filter (\<lambda>d. d_id d \<noteq> oid) docs"

text \<open>
  The same three given the \<^verbatim>\<open>id\<close> string of a payload: the string is cast first, and one
  that is no \<^verbatim>\<open>ObjectId\<close> makes the call throw.
\<close>

definition findById :: "env \<Rightarrow> string \<Rightarrow> doc list \<Rightarrow> error + doc option" where
  "findById e ident docs =
     (case castObjectId e ident of
        None \<Rightarrow> Inl CastError
      | Some oid \<Rightarrow> Inr (docById oid docs))"

definition findByIdAndUpdate ::
  "env \<Rightarrow> string \<Rightarrow> (doc \<Rightarrow> doc) \<Rightarrow> doc list \<Rightarrow> error + doc list" where
  "findByIdAndUpdate e ident f docs =
     (case castObjectId e ident of
        None \<Rightarrow> Inl CastError
      | Some oid \<Rightarrow> Inr (updateById oid f docs))"

definition findByIdAndDelete :: "env \<Rightarrow> string \<Rightarrow> doc list \<Rightarrow> error + doc list" where
  "findByIdAndDelete e ident docs =
     (case castObjectId e ident of
        None \<Rightarrow> Inl CastError
      | Some oid \<Rightarrow> Inr (deleteById oid docs))"

text \<open>
  The schema's only validator: \<^verbatim>\<open>text\<close> is required, a non-empty string. It runs in
  \<^verbatim>\<open>Todo.create\<close>, \<^verbatim>\<open>Todo.insertMany\<close> and \<^verbatim>\<open>doc.save()\<close>, not in
  \<^verbatim>\<open>findByIdAndUpdate\<close>.
\<close>

definition validates :: "doc \<Rightarrow> bool" where
  "validates d = truthy (d_text d)"

text \<open>
  \<^verbatim>\<open>Todo.create\<close> and \<^verbatim>\<open>Todo.insertMany\<close>: every document is validated before anything is
  written; then the documents are inserted in order, up to the first whose id exists
  already. The result is the collection and the exception thrown, if any.
\<close>

fun insertOrdered :: "doc list \<Rightarrow> doc list \<Rightarrow> doc list \<times> error option" where
  "insertOrdered [] docs = (docs, None)"
| "insertOrdered (d # ds) docs =
     (if d_id d \<in> set (map d_id docs) then (docs, Some DuplicateKey)
      else insertOrdered ds (docs @ [d]))"

definition insertMany :: "doc list \<Rightarrow> doc list \<Rightarrow> doc list \<times> error option" where
  "insertMany new docs =
     (if list_all validates new then insertOrdered new docs
      else (docs, Some ValidationError))"

text \<open>\<^verbatim>\<open>doc.save()\<close> of a document read from the collection.\<close>

definition save :: "doc \<Rightarrow> doc list \<Rightarrow> error + doc list" where
  "save d docs =
     (if validates d then Inr (updateById (d_id d) (\<lambda>x. d) docs)
      else Inl ValidationError)"

text \<open>
  \<^verbatim>\<open>Todo.findOne().sort({ position: -1 })\<close> followed by
  \<^verbatim>\<open>last ? (last.position || 0) + 1 : 0\<close>.
\<close>

fun maxPosition :: "doc list \<Rightarrow> int option" where
  "maxPosition [] = None"
| "maxPosition (d # ds) =
     (case maxPosition ds of
        None \<Rightarrow> Some (d_position d)
      | Some m \<Rightarrow> Some (max (d_position d) m))"

definition nextPosition :: "doc list \<Rightarrow> int" where
  "nextPosition docs = (case maxPosition docs of None \<Rightarrow> 0 | Some m \<Rightarrow> m + 1)"

definition new_doc_mongo :: "env \<Rightarrow> payload \<Rightarrow> doc list \<Rightarrow> bool \<Rightarrow> doc" where
  "new_doc_mongo e p docs locked =
     (let pos = nextPosition docs;
          auto = computePriorityByDue e (p_dueDate p) (p_dueTime p);
          priority = jor (p_priority p) (jor auto (Str ''low''));
          deps = (case p_dependencies p of Some ds \<Rightarrow> ds | None \<Rightarrow> [])
      in \<lparr> d_id = objectId e 0, d_text = p_text p, d_completed = p_completed p,
           d_category = jor (p_category p) (Str ''other''), d_priority = priority,
           d_dueDate = jor (p_dueDate p) Null, d_dueTime = jor (p_dueTime p) Null,
           d_dependencies = deps, d_locked = locked, d_position = pos,
           d_createdAt = now e, d_updatedAt = now e \<rparr>)"

definition add_mongo :: "env \<Rightarrow> payload \<Rightarrow> doc list \<Rightarrow> doc list \<times> out list" where
  "add_mongo e p docs =
     (case computeLockedFor_mongo e docs
             (case p_dependencies p of Some ds \<Rightarrow> ds | None \<Rightarrow> []) of
        Inl err \<Rightarrow> (docs, [])
      | Inr locked \<Rightarrow>
          (let d = new_doc_mongo e p docs locked
           in case insertMany [d] docs of
                (docs1, Some err) \<Rightarrow> (docs1, [])
              | (docs1, None) \<Rightarrow>
                  (docs1,
                   (if truthy (p_id p) then [Send (SyncConfirm (p_id p) (Str (d_id d)))]
                    else []) @
                   [BroadcastExcept (SyncUpdate (todo_of_doc d))])))"

definition edit_fields_mongo :: "env \<Rightarrow> payload \<Rightarrow> doc \<Rightarrow> doc" where
  "edit_fields_mongo e p d =
     (let auto = computePriorityByDue e (p_dueDate p) (p_dueTime p) in
      d \<lparr> d_updatedAt := now e,
          d_text := (if p_text p \<noteq> Undefined then p_text p else d_text d),
          d_category := (if p_category p \<noteq> Undefined then p_category p else d_category d),
          d_dueDate := (if p_dueDate p \<noteq> Undefined then jor (p_dueDate p) Null else d_dueDate d),
          d_dueTime := (if p_dueTime p \<noteq> Undefined then jor (p_dueTime p) Null else d_dueTime d),
          d_priority := jor (p_priority p) (jor auto (Str ''low'')),
          d_dependencies :=
            (case p_dependencies p of Some ds \<Rightarrow> ds | None \<Rightarrow> d_dependencies d) \<rparr>)"

text \<open>
  \<^verbatim>\<open>todo:edit\<close>: the update is written first; the document is read back (\<^verbatim>\<open>null\<close> when
  there is none, and \<^verbatim>\<open>doc.dependencies\<close> throws a \<^verbatim>\<open>TypeError\<close>); then the lock is
  computed, which throws when a dependency of the document is no \<^verbatim>\<open>ObjectId\<close>.
\<close>

definition edit_mongo :: "env \<Rightarrow> payload \<Rightarrow> doc list \<Rightarrow> doc list \<times> out list" where
  "edit_mongo e p docs =
     (if \<not> truthy (p_id p) then (docs, [])
      else
        (let ident = str_of (p_id p) in
         case findByIdAndUpdate e ident (edit_fields_mongo e p) docs of
           Inl err \<Rightarrow> (docs, [])
         | Inr docs1 \<Rightarrow>
             (case findById e ident docs1 of
                Inl err \<Rightarrow> (docs1, [])
              | Inr None \<Rightarrow> (docs1, [])
              | Inr (Some d) \<Rightarrow>
                  (case computeLockedFor_mongo e docs1 (d_dependencies d) of
                     Inl err \<Rightarrow> (docs1, [])
                   | Inr locked \<Rightarrow>
                       (case
                          (if locked \<noteq> d_locked d then
                             findByIdAndUpdate e ident
                               (\<lambda>x. x \<lparr> d_locked := locked, d_updatedAt := now e \<rparr>) docs1
                           else Inr docs1) of
                          Inl err \<Rightarrow> (docs1, [])
                        | Inr docs2 \<Rightarrow>
                            (docs2,
                             [Broadcast
                                (SyncUpdate (todo_of_doc (d \<lparr> d_locked := locked \<rparr>)))]))))))"

definition remove_mongo :: "env \<Rightarrow> jstr \<Rightarrow> doc list \<Rightarrow> doc list \<times> out list" where
  "remove_mongo e ident docs =
     (if \<not> truthy ident then (docs, [])
      else
        (case findByIdAndDelete e (str_of ident) docs of
           Inl err \<Rightarrow> (docs, [])
         | Inr docs1 \<Rightarrow> (docs1, [Broadcast (SyncReplace (getAllTodos_mongo docs1))])))"

text \<open>
  The loop \<^verbatim>\<open>for (const dep of dependents)\<close> of \<^verbatim>\<open>todo:toggle\<close>: \<open>dependents\<close> is the
  result of the query made before the loop, the collection is read again at each step.
  The dependencies of a dependent are strings, cast by the lock computation; its
  \<^verbatim>\<open>_id\<close> is an \<^verbatim>\<open>ObjectId\<close>.
\<close>

fun unlock_dependents :: "env \<Rightarrow> doc list \<Rightarrow> doc list \<Rightarrow> doc list \<times> out list" where
  "unlock_dependents e [] docs = (docs, [])"
| "unlock_dependents e (dep # rest) docs =
     (case computeLockedFor_mongo e docs (d_dependencies dep) of
        Inl err \<Rightarrow> (docs, [])
      | Inr locked \<Rightarrow>
          if \<not> locked \<and> d_locked dep then
            (let docs1 = updateById (d_id dep)
                           (\<lambda>x. x \<lparr> d_locked := False, d_updatedAt := now e \<rparr>) docs
             in case docById (d_id dep) docs1 of
                  None \<Rightarrow> (docs1, [])
                | Some newDoc \<Rightarrow>
                    (case unlock_dependents e rest docs1 of
                       (docs2, outs) \<Rightarrow>
                         (docs2,
                          [Broadcast (SyncUpdate ((todo_of_doc newDoc) \<lparr> t_locked := Some False \<rparr>)),
                           Broadcast (Reminder (Str (d_id newDoc))
                             ''A dependency finished - this task is unlocked.'')] @ outs)))
          else unlock_dependents e rest docs)"

definition toggle_mongo :: "env \<Rightarrow> jstr \<Rightarrow> doc list \<Rightarrow> doc list \<times> out list" where
  "toggle_mongo e ident docs =
     (if \<not> truthy ident then (docs, [])
      else
        (case findById e (str_of ident) docs of
           Inl err \<Rightarrow> (docs, [])
         | Inr None \<Rightarrow> (docs, [])
         | Inr (Some d0) \<Rightarrow>
             (let d = d0 \<lparr> d_completed := \<not> d_completed d0, d_updatedAt := now e \<rparr>
              in case save d docs of
                   Inl err \<Rightarrow> (docs, [])
                 | Inr docs1 \<Rightarrow>
                     (let out1 = [Broadcast (SyncUpdate (todo_of_doc d))]
                      in if d_completed d then
                           (let dependents = filter (\<lambda>x. d_id d \<in> set (d_dependencies x)) docs1
                            in case unlock_dependents e dependents docs1 of
                                 (docs2, out2) \<Rightarrow> (docs2, out1 @ out2))
                         else (docs1, out1)))))"

definition clearCompleted_mongo :: "doc list \<Rightarrow> doc list \<times> out list" where
  "clearCompleted_mongo docs =
     (let docs1 = filter (\<lambda>d. \<not> d_completed d) docs
      in (docs1, [Broadcast (SyncReplace (getAllTodos_mongo docs1))]))"

definition clearAll_mongo :: "doc list \<Rightarrow> doc list \<times> out list" where
  "clearAll_mongo docs = ([], [Broadcast (SyncReplace [])])"

text \<open>
  The loop of \<^verbatim>\<open>todo:reorder\<close>: it stops at the first listed id that is no \<^verbatim>\<open>ObjectId\<close>,
  the positions written before staying written.
\<close>

fun reorder_loop :: "env \<Rightarrow> (nat \<times> string) list \<Rightarrow> doc list \<Rightarrow> doc list \<times> error option" where
  "reorder_loop e [] docs = (docs, None)"
| "reorder_loop e ((i, ident) # rest) docs =
     (case findByIdAndUpdate e ident
             (\<lambda>d. d \<lparr> d_position := int i, d_updatedAt := now e \<rparr>) docs of
        Inl err \<Rightarrow> (docs, Some err)
      | Inr docs1 \<Rightarrow> reorder_loop e rest docs1)"

definition reorder_mongo :: "env \<Rightarrow> string list \<Rightarrow> doc list \<Rightarrow> doc list \<times> out list" where
  "reorder_mongo e order docs =
     (case reorder_loop e (enumerate 0 order) docs of
        (docs1, Some err) \<Rightarrow> (docs1, [])
      | (docs1, None) \<Rightarrow> (docs1, [Broadcast (SyncReplace (getAllTodos_mongo docs1))]))"

definition restored_doc :: "env \<Rightarrow> nat \<times> todo \<Rightarrow> doc" where
  "restored_doc e ix =
     (case ix of (i, t) \<Rightarrow>
        \<lparr> d_id = objectId e i, d_text = t_text t, d_completed = truthyb (t_completed t),
          d_category = jor (t_category t) (Str ''other''),
          d_priority = jor (t_priority t) (Str ''low''),
          d_dueDate = Null, d_dueTime = Null, d_dependencies = [], d_locked = False,
          d_position = int (now e) + int i, d_createdAt = now e, d_updatedAt = now e \<rparr>)"

definition restoreMany_mongo :: "env \<Rightarrow> todo list \<Rightarrow> doc list \<Rightarrow> doc list \<times> out list" where
  "restoreMany_mongo e items docs =
     (case insertMany (map (restored_doc e) (enumerate 0 items)) docs of
        (docs1, Some err) \<Rightarrow> (docs1, [])
      | (docs1, None) \<Rightarrow> (docs1, [Broadcast (SyncReplace (getAllTodos_mongo docs1))]))"

fun handleMessage_mongo :: "env \<Rightarrow> request \<Rightarrow> doc list \<Rightarrow> doc list \<times> out list" where
  "handleMessage_mongo e SyncRequest docs = (docs, [Send (SyncReplace (getAllTodos_mongo docs))])"
| "handleMessage_mongo e (TodoAdd p) docs = add_mongo e p docs"
| "handleMessage_mongo e (TodoEdit p) docs = edit_mongo e p docs"
| "handleMessage_mongo e (TodoRemove i) docs = remove_mongo e i docs"
| "handleMessage_mongo e (TodoToggle i) docs = toggle_mongo e i docs"
| "handleMessage_mongo e ClearCompleted docs = clearCompleted_mongo docs"
| "handleMessage_mongo e ClearAll docs = clearAll_mongo docs"
| "handleMessage_mongo e (Reorder order) docs = reorder_mongo e order docs"
| "handleMessage_mongo e (RestoreMany items) docs = restoreMany_mongo e items docs"

text \<open>A run of the server: the messages are handled one after the other.\<close>

fun run_mem :: "(env \<times> request) list \<Rightarrow> todo list \<Rightarrow> todo list" where
  "run_mem [] s = s"
| "run_mem ((e, r) # rs) s = run_mem rs (fst (handleMessage_mem e r s))"

fun run_mongo :: "(env \<times> request) list \<Rightarrow> doc list \<Rightarrow> doc list" where
  "run_mongo [] docs = docs"
| "run_mongo ((e, r) # rs) docs = run_mongo rs (fst (handleMessage_mongo e r docs))"

section \<open>Properties of stores\<close>

text \<open>
  The lock state the specification describes: a task is locked iff some task that exists
  and that it lists as a dependency is not completed. In MongoDB a dependency names the
  document whose \<^verbatim>\<open>ObjectId\<close> it is cast to.
\<close>

definition lock_consistent_mongo :: "env \<Rightarrow> doc list \<Rightarrow> doc \<Rightarrow> bool" where
  "lock_consistent_mongo e docs d =
     (d_locked d =
      list_ex (\<lambda>x. Some (d_id x) \<in> set (map (castObjectId e) (d_dependencies d)) \<and>
                 \<not> d_completed x) docs)"

definition lock_consistent_mem :: "todo list \<Rightarrow> todo \<Rightarrow> bool" where
  "lock_consistent_mem s t =
     (truthyb (t_locked t) =
      list_ex (\<lambda>x. array_includes (case t_dependencies t of Some ds \<Rightarrow> ds | None \<Rightarrow> []) (t_id x) \<and>
                 \<not> truthyb (t_completed x)) s)"

text \<open>A locked task has at least one dependency.\<close>

definition no_lock_without_deps :: "todo \<Rightarrow> bool" where
  "no_lock_without_deps t =
     (truthyb (t_locked t) \<longrightarrow>
        (case t_dependencies t of Some ds \<Rightarrow> ds \<noteq> [] | None \<Rightarrow> False))"

definition no_lock_without_deps_doc :: "doc \<Rightarrow> bool" where
  "no_lock_without_deps_doc d = (d_locked d \<longrightarrow> d_dependencies d \<noteq> [])"

text \<open>The same for a collection, whose ids are moreover pairwise distinct.\<close>

definition inv_mongo :: "doc list \<Rightarrow> bool" where
  "inv_mongo docs \<longleftrightarrow> distinct (map d_id docs) \<and> list_all no_lock_without_deps_doc docs"

text \<open>
  Requests whose restored snapshots, if any, are not locked without a dependency: the
  in-memory \<^verbatim>\<open>todo:restoreMany\<close> stores snapshots as they come.
\<close>

definition restores_checked :: "env \<times> request \<Rightarrow> bool" where
  "restores_checked er =
     (case snd er of RestoreMany items \<Rightarrow> list_all no_lock_without_deps items | _ \<Rightarrow> True)"

text \<open>Every string of the list is cast to an \<^verbatim>\<open>ObjectId\<close>.\<close>

definition castable :: "env \<Rightarrow> string list \<Rightarrow> bool" where
  "castable e ds = list_all (\<lambda>x. castObjectId e x \<noteq> None) ds"

text \<open>
  The string is the string form of an \<^verbatim>\<open>ObjectId\<close>, as the server sends it in the
  \<^verbatim>\<open>id\<close> of a task: the cast gives the \<^verbatim>\<open>ObjectId\<close> written that way.
\<close>

definition canonical :: "env \<Rightarrow> string \<Rightarrow> bool" where
  "canonical e x \<longleftrightarrow> castObjectId e x = Some x"

text \<open>
  The dependents a completed task releases in MongoDB, and the two messages sent for each:
  a dependent is released when it is locked and the lock computation, made after the
  completion was saved, finds nothing blocking.
\<close>

definition unlockable :: "env \<Rightarrow> doc list \<Rightarrow> doc \<Rightarrow> bool" where
  "unlockable e docs b \<longleftrightarrow>
     d_locked b \<and> computeLockedFor_mongo e docs (d_dependencies b) = Inr False"

definition unlock_messages :: "doc \<Rightarrow> out list" where
  "unlock_messages b =
     [Broadcast (SyncUpdate (todo_of_doc (b \<lparr> d_locked := False \<rparr>))),
      Broadcast (Reminder (Str (d_id b)) ''A dependency finished - this task is unlocked.'')]"

text \<open>The same for the in-memory store, with its own lock computation.\<close>

definition releasable :: "jstr \<Rightarrow> todo list \<Rightarrow> todo \<Rightarrow> bool" where
  "releasable done s t =
     (case t_dependencies t of
        None \<Rightarrow> False
      | Some ds \<Rightarrow> array_includes ds done \<and> \<not> list_ex (blocked_mem s) ds \<and> truthyb (t_locked t))"

definition release :: "todo \<Rightarrow> todo" where
  "release t = t \<lparr> t_locked := Some False \<rparr>"

definition release_messages :: "todo \<Rightarrow> out list" where
  "release_messages t =
     [Broadcast (SyncUpdate (release t)),
      Broadcast (Reminder (t_id t) ''A dependency finished - this task is unlocked.'')]"

fun is_update_for :: "jstr \<Rightarrow> out \<Rightarrow> bool" where
  "is_update_for ident (Broadcast (SyncUpdate t)) = (t_id t = ident)"
| "is_update_for ident other = False"

fun is_reminder_for :: "jstr \<Rightarrow> out \<Rightarrow> bool" where
  "is_reminder_for ident (Broadcast (Reminder i m)) = (i = ident)"
| "is_reminder_for ident other = False"





text \<open>
  One step of the loop of \<^verbatim>\<open>todo:reorder\<close> for a listed id that is cast to \<open>oid\<close>.
\<close>

definition reorder_step :: "env \<Rightarrow> doc list \<Rightarrow> nat \<times> string \<Rightarrow> doc list" where
  "reorder_step e docs ix =
     (case ix of (i, oid) \<Rightarrow>
        updateById oid (\<lambda>d. d \<lparr> d_position := int i, d_updatedAt := now e \<rparr>) docs)"

section \<open>Example inputs\<close>

text \<open>
  The cast of the strings every version of mongoose accepts: 24 hexadecimal digits, read
  without regard to case. \<open>hex_id n\<close> is such a string.
\<close>

definition hexdigit :: "char \<Rightarrow> bool" where
  "hexdigit c \<longleftrightarrow> c \<in> set ''0123456789abcdefABCDEF''"

definition lowercase :: "char \<Rightarrow> char" where
  "lowercase c = (case map_of (zip ''ABCDEF'' ''abcdef'') c of Some l \<Rightarrow> l | None \<Rightarrow> c)"

definition castHex :: "string \<Rightarrow> string option" where
  "castHex s = (if length s = 24 \<and> list_all hexdigit s then Some (map lowercase s) else None)"

definition hex_id :: "nat \<Rightarrow> string" where
  "hex_id n = replicate (24 - length (decimal n)) CHR ''0'' @ decimal n"

text \<open>Inputs used in the examples below.\<close>

definition example_env :: "nat \<Rightarrow> env" where
  "example_env n =
     \<lparr> now = n, parseDate = (\<lambda>s. None), castObjectId = castHex,
       objectId = (\<lambda>i. hex_id (10 * n + i)) \<rparr>"

definition example_payload :: "string \<Rightarrow> string list option \<Rightarrow> payload" where
  "example_payload txt ds =
     \<lparr> p_id = Undefined, p_text = Str txt, p_completed = False, p_category = Undefined,
       p_priority = Undefined, p_dueDate = Undefined, p_dueTime = Undefined,
       p_dependencies = ds \<rparr>"

definition example_todo :: "string \<Rightarrow> bool \<Rightarrow> string list \<Rightarrow> bool \<Rightarrow> int \<Rightarrow> todo" where
  "example_todo ident c ds l pos =
     \<lparr> t_id = Str ident, t_text = Str ''task'', t_completed = Some c, t_category = Str ''other'',
       t_priority = Str ''low'', t_dueDate = Null, t_dueTime = Null,
       t_dependencies = Some ds, t_locked = Some l, t_position = pos \<rparr>"

definition example_doc :: "string \<Rightarrow> bool \<Rightarrow> string list \<Rightarrow> bool \<Rightarrow> int \<Rightarrow> doc" where
  "example_doc ident c ds l pos =
     \<lparr> d_id = ident, d_text = Str ''task'', d_completed = c, d_category = Str ''other'',
       d_priority = Str ''low'', d_dueDate = Null, d_dueTime = Null,
       d_dependencies = ds, d_locked = l, d_position = pos, d_createdAt = 0,
       d_updatedAt = 0 \<rparr>"

text \<open>
  A clock at 1000 ms that reads three dates: one an hour ahead, one two days ahead and
  one ten days ahead.
\<close>

definition calendar :: "string \<Rightarrow> int option" where
  "calendar s =
     (if s = ''2026-01-01T00:00:00'' then Some (1000 + 3600000)
      else if s = ''2026-01-03T09:30:00'' then Some (1000 + 2 * day)
      else if s = ''2026-01-11T00:00:00'' then Some (1000 + 10 * day)
      else None)"

definition calendar_env :: env where
  "calendar_env =
     \<lparr> now = 1000, parseDate = calendar, castObjectId = castHex, objectId = hex_id \<rparr>"

definition due_payload :: "jstr \<Rightarrow> jstr \<Rightarrow> jstr \<Rightarrow> jstr \<Rightarrow> payload" where
  "due_payload ident prio dd dt =
     \<lparr> p_id = ident, p_text = Str ''pay rent'', p_completed = False, p_category = Undefined,
       p_priority = prio, p_dueDate = dd, p_dueTime = dt, p_dependencies = None \<rparr>"

text \<open>
  A store with a stale lock: \<open>B\<close> depends on \<open>A\<close>, \<open>A\<close> was completed (which unlocked
  \<open>B\<close>) and then reopened. The same requests for each backend, with the id each backend
  gives \<open>A\<close>.
\<close>

definition stale_requests :: "(env \<times> request) list" where
  "stale_requests =
     [(example_env 1, TodoAdd (example_payload ''A'' None)),
      (example_env 2, TodoAdd (example_payload ''B'' (Some [''m_1'']))),
      (example_env 3, TodoToggle (Str ''m_1'')),
      (example_env 4, TodoToggle (Str ''m_1''))]"

definition stale_requests_mongo :: "(env \<times> request) list" where
  "stale_requests_mongo =
     [(example_env 1, TodoAdd (example_payload ''A'' None)),
      (example_env 2, TodoAdd (example_payload ''B'' (Some [hex_id 10]))),
      (example_env 3, TodoToggle (Str (hex_id 10))),
      (example_env 4, TodoToggle (Str (hex_id 10)))]"

definition rename_payload :: "string \<Rightarrow> payload" where
  "rename_payload ident =
     \<lparr> p_id = Str ident, p_text = Str ''renamed'', p_completed = False,
       p_category = Undefined, p_priority = Undefined, p_dueDate = Undefined,
       p_dueTime = Undefined, p_dependencies = None \<rparr>"

definition deps_payload :: "string \<Rightarrow> string list \<Rightarrow> payload" where
  "deps_payload ident ds =
     \<lparr> p_id = Str ident, p_text = Undefined, p_completed = False,
       p_category = Undefined, p_priority = Undefined, p_dueDate = Undefined,
       p_dueTime = Undefined, p_dependencies = Some ds \<rparr>"

text \<open>
  \<open>B\<close> depends on \<open>T\<close> and on an id that names no task; the same requests for each
  backend, with the id each backend gives \<open>T\<close>.
\<close>

definition dangling_requests :: "(env \<times> request) list" where
  "dangling_requests =
     [(example_env 1, TodoAdd (example_payload ''T'' None)),
      (example_env 2, TodoAdd (example_payload ''B'' (Some [''m_1'', ''ghost''])))]"

definition dangling_requests_mongo :: "(env \<times> request) list" where
  "dangling_requests_mongo =
     [(example_env 1, TodoAdd (example_payload ''T'' None)),
      (example_env 2, TodoAdd (example_payload ''B'' (Some [hex_id 10, hex_id 99])))]"

text \<open>
  Requests that leave locked tasks in both stores: \<open>B\<close> depends on the task that is \<open>A\<close>
  in MongoDB, and a locked snapshot is restored.
\<close>

definition locking_requests :: "(env \<times> request) list" where
  "locking_requests =
     [(example_env 1, TodoAdd (example_payload ''A'' None)),
      (example_env 2, TodoAdd (example_payload ''B'' (Some [hex_id 10]))),
      (example_env 3, RestoreMany [example_todo ''x'' False [''m_1''] True 7]),
      (example_env 4, Reorder [hex_id 20, hex_id 10, ''m_2'', ''x''])]"

section \<open>Basic facts\<close>

lemma jor_truthy: "truthy a \<Longrightarrow> jor a b = a"
  by (simp add: jor_def)

lemma jor_falsy: "\<not> truthy a \<Longrightarrow> jor a b = b"
  by (simp add: jor_def)

lemma truthy_Str: "truthy i \<Longrightarrow> Str (str_of i) = i"
  by (cases i) simp_all

lemma findIndex_Some:
  "findIndex P xs = Some i \<Longrightarrow> i < length xs \<and> P (xs ! i) \<and> (\<forall>j<i. \<not> P (xs ! j))"
proof (induction xs arbitrary: i)
  case Nil
  then show ?case by simp
next
  case (Cons x xs)
  show ?case
  proof (cases "P x")
    case True
    with Cons.prems show ?thesis by simp
  next
    case False
    with Cons.prems obtain k where k: "findIndex P xs = Some k" "i = Suc k"
      by auto
    from Cons.IH [OF k(1)] False k(2) show ?thesis
      by (auto simp: less_Suc_eq_0_disj)
  qed
qed

lemma findIndex_None: "findIndex P xs = None \<longleftrightarrow> (\<forall>x\<in>set xs. \<not> P x)"
  by (induction xs) auto

lemma find_in_set: "find P xs = Some x \<Longrightarrow> x \<in> set xs \<and> P x"
  by (induction xs) (auto split: if_splits)

lemma list_all_update:
  "list_all P xs \<Longrightarrow> P x \<Longrightarrow> list_all P (xs[i := x])"
  using set_update_subset_insert [of xs i x] by (auto simp: list_all_iff)

subsection \<open>The lock computation\<close>

lemma those_map_None: "those (map f xs) = None \<longleftrightarrow> (\<exists>x\<in>set xs. f x = None)"
  by (induction xs) (auto split: option.splits)

lemma those_map_Some: "those (map f xs) = Some ys \<Longrightarrow> map f xs = map Some ys"
  by (induction xs arbitrary: ys) (auto split: option.splits)

lemma those_map_set:
  assumes "those (map f xs) = Some ys"
  shows "y \<in> set ys \<longleftrightarrow> Some y \<in> f ` set xs"
proof -
  from those_map_Some [OF assms] have "set (map f xs) = set (map Some ys)" by simp
  then have "f ` set xs = Some ` set ys" by simp
  then show ?thesis by auto
qed

lemma castable_iff: "castable e ds \<longleftrightarrow> those (map (castObjectId e) ds) \<noteq> None"
  by (auto simp: castable_def list_all_iff those_map_None)

lemma computeLockedFor_mongo_Nil [simp]: "computeLockedFor_mongo e docs [] = Inr False"
  by (simp add: computeLockedFor_mongo_def)

lemma computeLockedFor_mongo_castable:
  assumes "castable e deps"
  shows "computeLockedFor_mongo e docs deps =
     Inr (deps \<noteq> [] \<and>
          (\<exists>d\<in>set docs. Some (d_id d) \<in> castObjectId e ` set deps \<and> \<not> d_completed d))"
proof -
  from assms obtain oids where oids: "those (map (castObjectId e) deps) = Some oids"
    by (auto simp: castable_iff)
  note mem = those_map_set [OF oids]
  show ?thesis
    by (auto simp: computeLockedFor_mongo_def oids list_all_iff mem)
qed

lemma computeLockedFor_mongo_error:
  "computeLockedFor_mongo e docs deps = Inl err \<longleftrightarrow>
     err = CastError \<and> deps \<noteq> [] \<and> \<not> castable e deps"
  by (auto simp: computeLockedFor_mongo_def castable_iff split: option.splits)

lemma computeLockedFor_mongo_result:
  "computeLockedFor_mongo e docs deps = Inr l \<Longrightarrow> deps = [] \<or> castable e deps"
  by (auto simp: computeLockedFor_mongo_def castable_iff split: if_splits option.splits)

lemma computeLockedFor_mongo_cong:
  assumes "map (\<lambda>d. (d_id d, d_completed d)) docs' = map (\<lambda>d. (d_id d, d_completed d)) docs"
  shows "computeLockedFor_mongo e docs' deps = computeLockedFor_mongo e docs deps"
proof -
  have *: "list_all d_completed (filter (\<lambda>d. d_id d \<in> S) ds) \<longleftrightarrow>
        (\<forall>k\<in>set (map (\<lambda>d. (d_id d, d_completed d)) ds). fst k \<in> S \<longrightarrow> snd k)" for ds S
    by (auto simp: list_all_iff)
  show ?thesis
    unfolding computeLockedFor_mongo_def * assms ..
qed

lemma blocked_mem_missing: "Str dep \<notin> t_id ` set s \<Longrightarrow> blocked_mem s dep"
proof -
  assume "Str dep \<notin> t_id ` set s"
  then have "find (\<lambda>x. t_id x = Str dep) s = None"
    by (force simp: find_None_iff)
  then show ?thesis by (simp add: blocked_mem_def)
qed

lemma computeLockedFor_mem_iff:
  "computeLockedFor_mem s deps \<longleftrightarrow> (\<exists>dep\<in>set deps. blocked_mem s dep)"
  by (auto simp: computeLockedFor_mem_def list_ex_iff)

lemma computeLockedFor_mem_Nil [simp]: "computeLockedFor_mem s [] = False"
  by (simp add: computeLockedFor_mem_def)

text \<open>The lock computation only reads ids and completion flags.\<close>

lemma find_id_completed:
  "map (\<lambda>t. (t_id t, t_completed t)) s' = map (\<lambda>t. (t_id t, t_completed t)) s \<Longrightarrow>
   map_option t_completed (find (\<lambda>x. t_id x = dep) s') =
   map_option t_completed (find (\<lambda>x. t_id x = dep) s)"
proof (induction s arbitrary: s')
  case Nil
  then show ?case by simp
next
  case (Cons t s)
  then obtain u s'' where "s' = u # s''" by (cases s') auto
  with Cons show ?case by auto
qed

lemma blocked_mem_cong:
  assumes "map (\<lambda>t. (t_id t, t_completed t)) s' = map (\<lambda>t. (t_id t, t_completed t)) s"
  shows "blocked_mem s' dep = blocked_mem s dep"
  using find_id_completed [OF assms, of "Str dep"]
  by (auto simp: blocked_mem_def split: option.splits)

lemma computeLockedFor_mem_cong:
  assumes "map (\<lambda>t. (t_id t, t_completed t)) s' = map (\<lambda>t. (t_id t, t_completed t)) s"
  shows "computeLockedFor_mem s' deps = computeLockedFor_mem s deps"
  by (simp add: computeLockedFor_mem_iff blocked_mem_cong [OF assms])

subsection \<open>Reordering in memory\<close>

lemma lookup_Task: "lookup s key = Task t \<Longrightarrow> t \<in> set s \<and> str_of (t_id t) = key"
  by (auto simp: lookup_def Let_def split: if_splits option.splits dest: find_in_set)

lemma lookup_plain:
  assumes "key \<notin> set object_prototype_keys" "\<forall>t\<in>set s. str_of (t_id t) \<noteq> ''__proto__''"
  shows "lookup s key =
     (case find (\<lambda>t. str_of (t_id t) = key) (rev s) of Some t \<Rightarrow> Task t | None \<Rightarrow> Nothing)"
proof -
  from assms(2) have "find (\<lambda>t. str_of (t_id t) = ''__proto__'') (rev s) = None"
    by (simp add: find_None_iff)
  moreover from assms(1) have "key \<noteq> ''__proto__''"
    by (auto simp: object_prototype_keys_def)
  ultimately show ?thesis
    using assms(1) by (simp add: lookup_def split: option.splits)
qed

lemma reorder_entry_position [simp]: "t_position (reorder_entry s (i, ident)) = int i"
  by (simp add: reorder_entry_def split: found.splits)

lemma reorder_entry_id:
  "t_id (reorder_entry s (i, ident)) = Str x \<Longrightarrow> x = ident"
proof (cases "lookup s ident")
  case (Task t)
  assume "t_id (reorder_entry s (i, ident)) = Str x"
  with Task lookup_Task [OF Task] show ?thesis
    by (auto simp: reorder_entry_def)
next
  case Other
  assume "t_id (reorder_entry s (i, ident)) = Str x"
  with Other show ?thesis by (simp add: reorder_entry_def blank_def)
next
  case Nothing
  assume "t_id (reorder_entry s (i, ident)) = Str x"
  with Nothing show ?thesis by (simp add: reorder_entry_def placeholder_def)
qed

lemma reorder_entry_key:
  "lookup s ident \<noteq> Other \<Longrightarrow> str_of (t_id (reorder_entry s (i, ident))) = ident"
  by (cases "lookup s ident") (auto simp: reorder_entry_def placeholder_def dest: lookup_Task)

lemma reorder_entry_in:
  "t \<in> set (map (reorder_entry s) (enumerate n order)) \<Longrightarrow>
   \<exists>j<length order. t = reorder_entry s (n + j, order ! j)"
proof -
  assume "t \<in> set (map (reorder_entry s) (enumerate n order))"
  then obtain a b where ab: "(a, b) \<in> set (enumerate n order)" "t = reorder_entry s (a, b)"
    by auto
  from ab(1) have "n \<le> a" "a - n < length order" "order ! (a - n) = b"
    by (auto simp: in_set_enumerate_eq)
  with ab(2) have "a - n < length order \<and> t = reorder_entry s (n + (a - n), order ! (a - n))"
    by simp
  then show ?thesis by blast
qed

lemma reorder_mem_nth:
  "i < length order \<Longrightarrow> fst (reorder_mem order s) ! i = reorder_entry s (i, order ! i)"
  by (simp add: reorder_mem_def Let_def nth_enumerate_eq)

lemma length_reorder_mem [simp]: "length (fst (reorder_mem order s)) = length order"
  by (simp add: reorder_mem_def Let_def)

subsection \<open>Reordering in MongoDB\<close>

lemma reorder_step_pair:
  "reorder_step e docs (i, oid) =
     updateById oid (\<lambda>d. d \<lparr> d_position := int i, d_updatedAt := now e \<rparr>) docs"
  by (simp add: reorder_step_def)

lemma reorder_loop_canonical:
  "\<forall>ix\<in>set ixs. canonical e (snd ix) \<Longrightarrow>
   reorder_loop e ixs docs = (foldl (reorder_step e) docs ixs, None)"
proof (induction ixs arbitrary: docs)
  case Nil
  then show ?case by simp
next
  case (Cons ix ixs)
  obtain i ident where ix: "ix = (i, ident)" by (cases ix)
  with Cons.prems have "castObjectId e ident = Some ident"
    by (simp add: canonical_def)
  with Cons show ?case
    by (simp add: ix findByIdAndUpdate_def reorder_step_pair)
qed

lemma reorder_loop_ids: "map d_id (fst (reorder_loop e ixs docs)) = map d_id docs"
proof (induction ixs arbitrary: docs)
  case Nil
  then show ?case by simp
next
  case (Cons ix ixs)
  obtain i ident where ix: "ix = (i, ident)" by (cases ix)
  show ?case
  proof (cases "castObjectId e ident")
    case None
    then show ?thesis by (simp add: ix findByIdAndUpdate_def)
  next
    case (Some oid)
    have "map d_id (updateById oid (\<lambda>d. d \<lparr> d_position := int i, d_updatedAt := now e \<rparr>) docs)
          = map d_id docs"
      by (simp add: updateById_def)
    with Cons.IH [of "updateById oid (\<lambda>d. d \<lparr> d_position := int i, d_updatedAt := now e \<rparr>) docs"]
    show ?thesis by (simp add: ix findByIdAndUpdate_def Some)
  qed
qed

lemma reorder_loop_keeps:
  "d \<in> set docs \<Longrightarrow> Some (d_id d) \<notin> castObjectId e ` snd ` set ixs \<Longrightarrow>
   d \<in> set (fst (reorder_loop e ixs docs))"
proof (induction ixs arbitrary: docs)
  case Nil
  then show ?case by simp
next
  case (Cons ix ixs)
  obtain i ident where ix: "ix = (i, ident)" by (cases ix)
  show ?case
  proof (cases "castObjectId e ident")
    case None
    with Cons.prems(1) show ?thesis by (simp add: ix findByIdAndUpdate_def)
  next
    case (Some oid)
    from Cons.prems(2) Some have "d_id d \<noteq> oid" by (force simp: ix)
    with Cons.prems(1)
    have "d \<in> set (updateById oid (\<lambda>d. d \<lparr> d_position := int i, d_updatedAt := now e \<rparr>) docs)"
      by (auto simp: updateById_def)
    moreover from Cons.prems(2) have "Some (d_id d) \<notin> castObjectId e ` snd ` set ixs"
      by auto
    ultimately show ?thesis
      using Cons.IH by (simp add: ix findByIdAndUpdate_def Some)
  qed
qed

lemma snd_enumerate_set: "snd ` set (enumerate n xs) = set xs"
  by (metis list.set_map map_snd_enumerate)

lemma reorder_fold_position:
  "distinct (map snd ixs) \<Longrightarrow> d \<in> set (foldl (reorder_step e) docs ixs) \<Longrightarrow>
   (i, d_id d) \<in> set ixs \<Longrightarrow> d_position d = int i"
proof (induction ixs arbitrary: d i rule: rev_induct)
  case Nil
  then show ?case by simp
next
  case (snoc ix ixs)
  obtain i0 id0 where ix: "ix = (i0, id0)" by (cases ix)
  from snoc.prems(1) have dist: "distinct (map snd ixs)" and fresh: "id0 \<notin> snd ` set ixs"
    by (auto simp: ix)
  from snoc.prems(2) obtain d0 where d0: "d0 \<in> set (foldl (reorder_step e) docs ixs)"
    and d: "d = (if d_id d0 = id0 then d0 \<lparr> d_position := int i0, d_updatedAt := now e \<rparr> else d0)"
    by (auto simp: ix reorder_step_pair updateById_def)
  show ?case
  proof (cases "d_id d0 = id0")
    case True
    with d have "d_id d = id0" "d_position d = int i0" by simp_all
    moreover from snoc.prems(3) this(1) fresh have "i = i0"
      by (force simp: ix)
    ultimately show ?thesis by simp
  next
    case False
    with d have dd: "d = d0" by simp
    with snoc.prems(3) False have "(i, d_id d0) \<in> set ixs" by (auto simp: ix)
    from snoc.IH [OF dist d0 this] dd show ?thesis by simp
  qed
qed

subsection \<open>Priority, add and edit\<close>

lemma computePriorityByDue_none:
  "\<not> truthy dd \<or> dueTarget e dd dt = None \<or>
     (\<exists>target. dueTarget e dd dt = Some target \<and> 3 * day < target - int (now e))
     \<Longrightarrow> computePriorityByDue e dd dt = Null"
  by (auto simp: computePriorityByDue_def Let_def day_def)

lemma computePriorityByDue_range:
  "computePriorityByDue e dd dt \<in> {Null, Str ''high'', Str ''medium''}"
  by (simp add: computePriorityByDue_def Let_def split: option.splits)

lemma add_mem_store: "fst (add_mem e p s) = new_todo_mem e p s # s"
  by (simp add: add_mem_def Let_def)

lemma insertMany_single:
  "insertMany [d] docs =
     (if \<not> truthy (d_text d) then (docs, Some ValidationError)
      else if d_id d \<in> d_id ` set docs then (docs, Some DuplicateKey)
      else (docs @ [d], None))"
  by (simp add: insertMany_def validates_def)

lemma new_doc_mongo_sel [simp]:
  "d_id (new_doc_mongo e p docs l) = objectId e 0"
  "d_text (new_doc_mongo e p docs l) = p_text p"
  "d_priority (new_doc_mongo e p docs l) =
     jor (p_priority p) (jor (computePriorityByDue e (p_dueDate p) (p_dueTime p)) (Str ''low''))"
  "d_dependencies (new_doc_mongo e p docs l) =
     (case p_dependencies p of Some ds \<Rightarrow> ds | None \<Rightarrow> [])"
  "d_locked (new_doc_mongo e p docs l) = l"
  "d_position (new_doc_mongo e p docs l) = nextPosition docs"
  "d_createdAt (new_doc_mongo e p docs l) = now e"
  by (simp_all add: new_doc_mongo_def Let_def)

lemma new_todo_mem_sel [simp]:
  "t_id (new_todo_mem e p s) = Str (''m_'' @ decimal (now e))"
  "t_priority (new_todo_mem e p s) =
     jor (p_priority p) (jor (computePriorityByDue e (p_dueDate p) (p_dueTime p)) (Str ''low''))"
  "t_dependencies (new_todo_mem e p s) =
     Some (case p_dependencies p of Some ds \<Rightarrow> ds | None \<Rightarrow> [])"
  "t_locked (new_todo_mem e p s) =
     Some (computeLockedFor_mem s (case p_dependencies p of Some ds \<Rightarrow> ds | None \<Rightarrow> []))"
  "t_position (new_todo_mem e p s) = int (length s)"
  by (simp_all add: new_todo_mem_def Let_def)

text \<open>
  \<^verbatim>\<open>todo:add\<close> in MongoDB stores nothing or appends one document, whose lock is the
  result of the lock computation.
\<close>

lemma add_mongo_store:
  "fst (add_mongo e p docs) =
     (case computeLockedFor_mongo e docs
             (case p_dependencies p of Some ds \<Rightarrow> ds | None \<Rightarrow> []) of
        Inl err \<Rightarrow> docs
      | Inr l \<Rightarrow>
          if truthy (p_text p) \<and> objectId e 0 \<notin> d_id ` set docs
          then docs @ [new_doc_mongo e p docs l] else docs)"
  by (simp add: add_mongo_def Let_def insertMany_single split: sum.splits)

lemma add_mongo_cases:
  "fst (add_mongo e p docs) = docs \<or>
   (\<exists>l. computeLockedFor_mongo e docs
           (case p_dependencies p of Some ds \<Rightarrow> ds | None \<Rightarrow> []) = Inr l \<and>
        objectId e 0 \<notin> d_id ` set docs \<and>
        fst (add_mongo e p docs) = docs @ [new_doc_mongo e p docs l])"
  by (auto simp: add_mongo_store split: sum.splits)

lemma edit_fields_mem_sel [simp]:
  "t_id (edit_fields_mem e p t) = t_id t"
  "t_completed (edit_fields_mem e p t) = t_completed t"
  "t_position (edit_fields_mem e p t) = t_position t"
  "t_locked (edit_fields_mem e p t) = t_locked t"
  "t_text (edit_fields_mem e p t) = (if p_text p \<noteq> Undefined then p_text p else t_text t)"
  "t_category (edit_fields_mem e p t) =
     (if p_category p \<noteq> Undefined then jor (p_category p) (t_category t) else t_category t)"
  "t_dueDate (edit_fields_mem e p t) =
     (if p_dueDate p \<noteq> Undefined then jor (p_dueDate p) Null else t_dueDate t)"
  "t_dueTime (edit_fields_mem e p t) =
     (if p_dueTime p \<noteq> Undefined then jor (p_dueTime p) Null else t_dueTime t)"
  "t_priority (edit_fields_mem e p t) =
     jor (p_priority p)
       (jor (computePriorityByDue e (p_dueDate p) (p_dueTime p)) (jor (t_priority t) (Str ''low'')))"
  "t_dependencies (edit_fields_mem e p t) =
     (case p_dependencies p of Some ds \<Rightarrow> Some ds | None \<Rightarrow> t_dependencies t)"
  by (simp_all add: edit_fields_mem_def Let_def)

lemma edit_mem_store:
  assumes "truthy (p_id p)" "findIndex (\<lambda>x. t_id x = p_id p) s = Some idx"
  shows "fst (edit_mem e p s) =
     s[idx := (edit_fields_mem e p (s ! idx))
         \<lparr> t_locked := Some (computeLockedFor_mem s
              (case t_dependencies (edit_fields_mem e p (s ! idx)) of Some ds \<Rightarrow> ds | None \<Rightarrow> [])) \<rparr>]"
proof -
  from findIndex_Some [OF assms(2)] have idx: "idx < length s" by simp
  have "map (\<lambda>t. (t_id t, t_completed t)) (s[idx := edit_fields_mem e p (s ! idx)]) =
        map (\<lambda>t. (t_id t, t_completed t)) s"
    using idx by (simp add: map_update list_update_same_conv)
  from computeLockedFor_mem_cong [OF this] assms show ?thesis
    by (simp add: edit_mem_def Let_def)
qed

lemma docById_update:
  assumes "\<And>x. d_id (f x) = d_id x"
  shows "docById i (updateById j f docs) =
         map_option (\<lambda>x. if d_id x = j then f x else x) (docById i docs)"
  by (induction docs) (auto simp: docById_def updateById_def assms)

lemma updateById_nth:
  "j < length docs \<Longrightarrow>
   updateById i f docs ! j = (if d_id (docs ! j) = i then f (docs ! j) else docs ! j)"
  by (simp add: updateById_def)

lemma length_updateById [simp]: "length (updateById i f docs) = length docs"
  by (simp add: updateById_def)

lemma docById_Some: "docById i docs = Some d \<Longrightarrow> d \<in> set docs \<and> d_id d = i"
  by (auto simp: docById_def dest: find_in_set)

lemma docById_None: "docById i docs = None \<longleftrightarrow> i \<notin> d_id ` set docs"
  by (auto simp: docById_def find_None_iff)

lemma updateById_absent: "docById i docs = None \<Longrightarrow> updateById i f docs = docs"
  unfolding updateById_def docById_None by (intro map_idI) force

lemma edit_fields_mongo_sel [simp]:
  "d_id (edit_fields_mongo e p d) = d_id d"
  "d_completed (edit_fields_mongo e p d) = d_completed d"
  "d_position (edit_fields_mongo e p d) = d_position d"
  "d_createdAt (edit_fields_mongo e p d) = d_createdAt d"
  "d_updatedAt (edit_fields_mongo e p d) = now e"
  "d_locked (edit_fields_mongo e p d) = d_locked d"
  "d_text (edit_fields_mongo e p d) = (if p_text p \<noteq> Undefined then p_text p else d_text d)"
  "d_category (edit_fields_mongo e p d) =
     (if p_category p \<noteq> Undefined then p_category p else d_category d)"
  "d_dueDate (edit_fields_mongo e p d) =
     (if p_dueDate p \<noteq> Undefined then jor (p_dueDate p) Null else d_dueDate d)"
  "d_dueTime (edit_fields_mongo e p d) =
     (if p_dueTime p \<noteq> Undefined then jor (p_dueTime p) Null else d_dueTime d)"
  "d_priority (edit_fields_mongo e p d) =
     jor (p_priority p) (jor (computePriorityByDue e (p_dueDate p) (p_dueTime p)) (Str ''low''))"
  "d_dependencies (edit_fields_mongo e p d) =
     (case p_dependencies p of Some ds \<Rightarrow> ds | None \<Rightarrow> d_dependencies d)"
  by (simp_all add: edit_fields_mongo_def Let_def)

lemma updateById_keys:
  "(\<And>x. d_id (f x) = d_id x \<and> d_completed (f x) = d_completed x) \<Longrightarrow>
   map (\<lambda>d. (d_id d, d_completed d)) (updateById i f docs) =
   map (\<lambda>d. (d_id d, d_completed d)) docs"
  by (simp add: updateById_def)

text \<open>
  \<^verbatim>\<open>todo:edit\<close> in MongoDB, case by case: the id is no \<^verbatim>\<open>ObjectId\<close>; it names no
  document; it names the document \<open>d\<close>.
\<close>

lemma edit_mongo_cast_error:
  "castObjectId e (str_of (p_id p)) = None \<Longrightarrow> edit_mongo e p docs = (docs, [])"
  by (simp add: edit_mongo_def findByIdAndUpdate_def)

lemma edit_mongo_missing:
  "castObjectId e (str_of (p_id p)) = Some oid \<Longrightarrow> docById oid docs = None \<Longrightarrow>
   edit_mongo e p docs = (docs, [])"
  by (simp add: edit_mongo_def findByIdAndUpdate_def findById_def updateById_absent)

lemma edit_mongo_found:
  assumes "truthy (p_id p)" "castObjectId e (str_of (p_id p)) = Some oid"
    and "docById oid docs = Some d"
  shows "edit_mongo e p docs =
     (case computeLockedFor_mongo e docs (d_dependencies (edit_fields_mongo e p d)) of
        Inl err \<Rightarrow> (updateById oid (edit_fields_mongo e p) docs, [])
      | Inr l \<Rightarrow>
          (if l \<noteq> d_locked d
           then updateById oid (\<lambda>x. x \<lparr> d_locked := l, d_updatedAt := now e \<rparr>)
                  (updateById oid (edit_fields_mongo e p) docs)
           else updateById oid (edit_fields_mongo e p) docs,
           [Broadcast (SyncUpdate (todo_of_doc ((edit_fields_mongo e p d) \<lparr> d_locked := l \<rparr>)))]))"
proof -
  let ?docs1 = "updateById oid (edit_fields_mongo e p) docs"
  let ?d1 = "edit_fields_mongo e p d"
  from docById_Some [OF assms(3)] have did: "d_id d = oid" by simp
  have f1: "docById oid ?docs1 = Some ?d1"
    using assms(3) did by (simp add: docById_update)
  have lk: "computeLockedFor_mongo e ?docs1 deps = computeLockedFor_mongo e docs deps" for deps
    by (rule computeLockedFor_mongo_cong) (simp add: updateById_keys)
  show ?thesis
    using assms(1,2)
    by (simp add: edit_mongo_def Let_def findByIdAndUpdate_def findById_def f1 lk
        split: sum.splits)
qed

lemma updateById_twice:
  "updateById i g (updateById i f docs) = updateById i (\<lambda>x. g (f x)) docs"
  if "\<And>x. d_id (f x) = d_id x"
  by (simp add: updateById_def that)

lemma edit_mongo_doc:
  assumes "truthy (p_id p)" "castObjectId e (str_of (p_id p)) = Some oid"
    and "docById oid docs = Some d"
  shows "docById oid (fst (edit_mongo e p docs)) =
     Some (case computeLockedFor_mongo e docs (d_dependencies (edit_fields_mongo e p d)) of
             Inl err \<Rightarrow> edit_fields_mongo e p d
           | Inr l \<Rightarrow> (edit_fields_mongo e p d) \<lparr> d_locked := l \<rparr>)"
proof -
  let ?d1 = "edit_fields_mongo e p d"
  let ?docs1 = "updateById oid (edit_fields_mongo e p) docs"
  from docById_Some [OF assms(3)] have did: "d_id d = oid" by simp
  have f1: "docById oid ?docs1 = Some ?d1"
    using assms(3) did by (simp add: docById_update)
  show ?thesis
  proof (cases "computeLockedFor_mongo e docs (d_dependencies ?d1)")
    case (Inl err)
    then show ?thesis by (simp add: edit_mongo_found [OF assms] f1)
  next
    case (Inr l)
    show ?thesis
    proof (cases "l \<noteq> d_locked d")
      case True
      have "docById oid (updateById oid (\<lambda>x. x \<lparr> d_locked := l, d_updatedAt := now e \<rparr>) ?docs1)
            = Some (?d1 \<lparr> d_locked := l, d_updatedAt := now e \<rparr>)"
        by (subst docById_update) (simp_all add: f1 did)
      moreover have "?d1 \<lparr> d_locked := l, d_updatedAt := now e \<rparr> = ?d1 \<lparr> d_locked := l \<rparr>"
        by (simp add: edit_fields_mongo_def Let_def)
      ultimately show ?thesis using True Inr by (simp add: edit_mongo_found [OF assms])
    next
      case False
      then have "?d1 \<lparr> d_locked := l \<rparr> = ?d1" by simp
      with False Inr f1 show ?thesis by (simp add: edit_mongo_found [OF assms])
    qed
  qed
qed

lemma edit_mongo_others:
  "length (fst (edit_mongo e p docs)) = length docs \<and>
   (\<forall>j<length docs. Some (d_id (docs ! j)) \<noteq> castObjectId e (str_of (p_id p)) \<longrightarrow>
      fst (edit_mongo e p docs) ! j = docs ! j)"
  by (auto simp: edit_mongo_def Let_def findByIdAndUpdate_def findById_def updateById_nth
      split: option.splits sum.splits)

lemma edit_mongo_keys:
  "map (\<lambda>d. (d_id d, d_completed d)) (fst (edit_mongo e p docs)) =
   map (\<lambda>d. (d_id d, d_completed d)) docs"
  by (simp add: edit_mongo_def Let_def findByIdAndUpdate_def findById_def updateById_def
      split: option.splits sum.splits)

subsection \<open>Listing\<close>

lemma todo_of_doc_sel [simp]:
  "t_id (todo_of_doc d) = Str (d_id d)"
  "t_completed (todo_of_doc d) = Some (d_completed d)"
  "t_position (todo_of_doc d) = d_position d"
  "t_dependencies (todo_of_doc d) = Some (d_dependencies d)"
  "t_locked (todo_of_doc d) = Some (d_locked d)"
  "t_priority (todo_of_doc d) = d_priority d"
  by (simp_all add: todo_of_doc_def)


lemma set_sort_docs [simp]: "set (sort_docs docs) = set docs"
  by (simp add: sort_docs_def)

lemma mset_sort_docs [simp]: "mset (sort_docs docs) = mset docs"
  by (simp add: sort_docs_def)


lemma getAllTodos_mongo_Nil [simp]: "getAllTodos_mongo [] = []"
  by (simp add: getAllTodos_mongo_def sort_docs_def)

subsection \<open>Restoring\<close>

lemma insort_key_before:
  "\<forall>y\<in>set ys. f x \<le> f y \<Longrightarrow> insort_key f x (zs @ ys) = insort_key f x zs @ ys"
proof (induction zs)
  case Nil
  then show ?case by (cases ys) auto
next
  case (Cons z zs)
  then show ?case by simp
qed

lemma sort_key_append_sorted:
  assumes "sorted (map f ys)" "\<forall>x\<in>set xs. \<forall>y\<in>set ys. f x \<le> f y"
  shows "sort_key f (xs @ ys) = sort_key f xs @ ys"
  using assms(2)
proof (induction xs)
  case Nil
  from assms(1) show ?case by (simp add: sort_key_id_if_sorted)
next
  case (Cons x xs)
  then have "sort_key f (xs @ ys) = sort_key f xs @ ys" by simp
  moreover from Cons.prems have "\<forall>y\<in>set ys. f x \<le> f y" by simp
  ultimately show ?case by (simp add: insort_key_before)
qed

lemma insertOrdered_fresh:
  "distinct (map d_id new) \<Longrightarrow> \<forall>d\<in>set new. d_id d \<notin> d_id ` set docs \<Longrightarrow>
   insertOrdered new docs = (docs @ new, None)"
proof (induction new arbitrary: docs)
  case Nil
  then show ?case by simp
next
  case (Cons d new)
  from Cons.prems(1) have "d_id d \<notin> d_id ` set new" by simp
  then have "d_id x \<noteq> d_id d" if "x \<in> set new" for x
    using that by (metis imageI)
  with Cons.prems(2) have "\<forall>x\<in>set new. d_id x \<notin> d_id ` set (docs @ [d])"
    by auto
  with Cons.IH [of "docs @ [d]"] Cons.prems show ?case by simp
qed

lemma insertOrdered_prefix: "\<exists>k. fst (insertOrdered new docs) = docs @ take k new"
proof (induction new arbitrary: docs)
  case Nil
  then show ?case by simp
next
  case (Cons d new)
  show ?case
  proof (cases "d_id d \<in> set (map d_id docs)")
    case True
    then have "fst (insertOrdered (d # new) docs) = docs @ take 0 (d # new)" by simp
    then show ?thesis by blast
  next
    case False
    from Cons.IH [of "docs @ [d]"] obtain k where
      "fst (insertOrdered new (docs @ [d])) = (docs @ [d]) @ take k new" by blast
    with False have "fst (insertOrdered (d # new) docs) = docs @ take (Suc k) (d # new)"
      by simp
    then show ?thesis by blast
  qed
qed

lemma insertOrdered_distinct:
  "distinct (map d_id docs) \<Longrightarrow> distinct (map d_id (fst (insertOrdered new docs)))"
proof (induction new arbitrary: docs)
  case Nil
  then show ?case by simp
next
  case (Cons d new)
  show ?case
  proof (cases "d_id d \<in> set (map d_id docs)")
    case True
    with Cons.prems show ?thesis by simp
  next
    case False
    with Cons.prems have "distinct (map d_id (docs @ [d]))" by simp
    from Cons.IH [OF this] False show ?thesis by simp
  qed
qed

lemma restored_doc_sel [simp]:
  "d_id (restored_doc e (i, t)) = objectId e i"
  "d_text (restored_doc e (i, t)) = t_text t"
  "d_completed (restored_doc e (i, t)) = truthyb (t_completed t)"
  "d_category (restored_doc e (i, t)) = jor (t_category t) (Str ''other'')"
  "d_priority (restored_doc e (i, t)) = jor (t_priority t) (Str ''low'')"
  "d_position (restored_doc e (i, t)) = int (now e) + int i"
  "d_createdAt (restored_doc e (i, t)) = now e"
  "d_locked (restored_doc e (i, t)) = False"
  "d_dependencies (restored_doc e (i, t)) = []"
  by (simp_all add: restored_doc_def)

lemma restored_ids:
  "map d_id (map (restored_doc e) (enumerate n items)) = map (objectId e) [n..<n + length items]"
  by (induction items arbitrary: n) (simp_all add: upt_rec)

lemma restored_text:
  "list_all validates (map (restored_doc e) (enumerate n items)) =
   list_all (\<lambda>t. truthy (t_text t)) items"
  by (induction items arbitrary: n) (simp_all add: validates_def)

lemma restored_sorted:
  "sorted (map (\<lambda>d. (d_position d, - int (d_createdAt d)))
     (map (restored_doc e) (enumerate n items)))"
proof (induction items arbitrary: n)
  case Nil
  then show ?case by simp
next
  case (Cons t items)
  have "\<forall>d\<in>set (map (restored_doc e) (enumerate (Suc n) items)).
          (int (now e) + int n, - int (now e)) \<le> (d_position d, - int (d_createdAt d))"
    by (auto simp: in_set_enumerate_eq less_eq_prod_def)
  with Cons [of "Suc n"] show ?case by simp
qed

lemma restoreMany_mongo_store:
  assumes "list_all (\<lambda>t. truthy (t_text t)) items"
    and "distinct (map (objectId e) [0..<length items])"
    and "\<forall>i<length items. objectId e i \<notin> d_id ` set docs"
  shows "fst (restoreMany_mongo e items docs) = docs @ map (restored_doc e) (enumerate 0 items)"
proof -
  let ?new = "map (restored_doc e) (enumerate 0 items)"
  have "\<forall>d\<in>set ?new. d_id d \<notin> d_id ` set docs"
    using assms(3) by (auto simp: in_set_enumerate_eq)
  moreover have "distinct (map d_id ?new)"
    using assms(2) by (simp only: restored_ids) simp
  ultimately have "insertOrdered ?new docs = (docs @ ?new, None)"
    by (rule insertOrdered_fresh [rotated])
  then have "insertMany ?new docs = (docs @ ?new, None)"
    using assms(1) by (simp only: insertMany_def restored_text) simp
  then show ?thesis by (simp add: restoreMany_mongo_def)
qed

text \<open>
  What \<^verbatim>\<open>todo:restoreMany\<close> stores: the in-memory branch prepends the snapshots as they
  are; the MongoDB branch appends documents with position \<^verbatim>\<open>Date.now() + i\<close>, which the
  listing shows after the existing ones when their positions are smaller.
\<close>

lemma restoreMany_stores:
  "fst (restoreMany_mem items s) = items @ s \<and>
   snd (restoreMany_mem items s) = [Broadcast (SyncReplace (items @ s))] \<and>
   (list_all (\<lambda>t. truthy (t_text t)) items \<and>
    distinct (map (objectId e) [0..<length items]) \<and>
    (\<forall>i<length items. objectId e i \<notin> d_id ` set docs) \<longrightarrow>
      take (length docs) (fst (restoreMany_mongo e items docs)) = docs \<and>
      length (fst (restoreMany_mongo e items docs)) = length docs + length items \<and>
      (\<forall>i<length items.
         d_position (fst (restoreMany_mongo e items docs) ! (length docs + i)) =
           int (now e) + int i \<and>
         d_priority (fst (restoreMany_mongo e items docs) ! (length docs + i)) =
           (if truthy (t_priority (items ! i)) then t_priority (items ! i) else Str ''low'') \<and>
         d_text (fst (restoreMany_mongo e items docs) ! (length docs + i)) = t_text (items ! i) \<and>
         d_completed (fst (restoreMany_mongo e items docs) ! (length docs + i)) =
           truthyb (t_completed (items ! i)) \<and>
         \<not> d_locked (fst (restoreMany_mongo e items docs) ! (length docs + i)) \<and>
         d_dependencies (fst (restoreMany_mongo e items docs) ! (length docs + i)) = []) \<and>
      ((\<forall>d\<in>set docs. d_position d < int (now e)) \<longrightarrow>
         getAllTodos_mongo (fst (restoreMany_mongo e items docs)) =
           getAllTodos_mongo docs @
           map todo_of_doc (drop (length docs) (fst (restoreMany_mongo e items docs)))))"
proof (intro conjI impI; (elim conjE)?)
  show "fst (restoreMany_mem items s) = items @ s"
    by (simp add: restoreMany_mem_def Let_def)
  show "snd (restoreMany_mem items s) = [Broadcast (SyncReplace (items @ s))]"
    by (simp add: restoreMany_mem_def Let_def)
next
  let ?new = "map (restored_doc e) (enumerate 0 items)"
  assume h: "list_all (\<lambda>t. truthy (t_text t)) items"
    "distinct (map (objectId e) [0..<length items])"
    "\<forall>i<length items. objectId e i \<notin> d_id ` set docs"
  note st = restoreMany_mongo_store [OF h]
  show "take (length docs) (fst (restoreMany_mongo e items docs)) = docs"
    by (simp add: st)
  show "length (fst (restoreMany_mongo e items docs)) = length docs + length items"
    by (simp add: st)
  show "\<forall>i<length items.
         d_position (fst (restoreMany_mongo e items docs) ! (length docs + i)) =
           int (now e) + int i \<and>
         d_priority (fst (restoreMany_mongo e items docs) ! (length docs + i)) =
           (if truthy (t_priority (items ! i)) then t_priority (items ! i) else Str ''low'') \<and>
         d_text (fst (restoreMany_mongo e items docs) ! (length docs + i)) = t_text (items ! i) \<and>
         d_completed (fst (restoreMany_mongo e items docs) ! (length docs + i)) =
           truthyb (t_completed (items ! i)) \<and>
         \<not> d_locked (fst (restoreMany_mongo e items docs) ! (length docs + i)) \<and>
         d_dependencies (fst (restoreMany_mongo e items docs) ! (length docs + i)) = []"
    by (simp add: st nth_enumerate_eq jor_def)
  {
    assume low: "\<forall>d\<in>set docs. d_position d < int (now e)"
    have "\<forall>x\<in>set docs. \<forall>y\<in>set ?new.
        (d_position x, - int (d_createdAt x)) \<le> (d_position y, - int (d_createdAt y))"
      using low by (fastforce simp: in_set_enumerate_eq less_eq_prod_def)
    from sort_key_append_sorted [OF restored_sorted this]
    show "getAllTodos_mongo (fst (restoreMany_mongo e items docs)) =
           getAllTodos_mongo docs @
           map todo_of_doc (drop (length docs) (fst (restoreMany_mongo e items docs)))"
      by (simp add: st getAllTodos_mongo_def sort_docs_def)
  }
qed

subsection \<open>Locked tasks have dependencies: in memory\<close>

lemma new_todo_mem_ok: "no_lock_without_deps (new_todo_mem e p s)"
  by (auto simp: no_lock_without_deps_def split: option.splits)

lemma add_mem_ok:
  "list_all no_lock_without_deps s \<Longrightarrow> list_all no_lock_without_deps (fst (add_mem e p s))"
  by (simp add: add_mem_store new_todo_mem_ok)

lemma edit_mem_ok:
  assumes "list_all no_lock_without_deps s"
  shows "list_all no_lock_without_deps (fst (edit_mem e p s))"
proof (cases "truthy (p_id p)")
  case False
  with assms show ?thesis by (simp add: edit_mem_def)
next
  case True
  show ?thesis
  proof (cases "findIndex (\<lambda>x. t_id x = p_id p) s")
    case None
    with assms show ?thesis by (simp add: edit_mem_def)
  next
    case (Some idx)
    have "no_lock_without_deps ((edit_fields_mem e p (s ! idx))
       \<lparr> t_locked := Some (computeLockedFor_mem s
            (case t_dependencies (edit_fields_mem e p (s ! idx)) of Some ds \<Rightarrow> ds | None \<Rightarrow> [])) \<rparr>)"
      by (auto simp: no_lock_without_deps_def split: option.splits)
    with assms show ?thesis
      by (simp only: edit_mem_store [OF True Some] list_all_update)
  qed
qed

lemma unlock_step_ok:
  "list_all no_lock_without_deps (fst acc) \<Longrightarrow> i < length (fst acc) \<Longrightarrow>
   list_all no_lock_without_deps (fst (unlock_step done acc i)) \<and>
   length (fst (unlock_step done acc i)) = length (fst acc)"
  by (cases acc)
     (auto simp: unlock_step_def Let_def no_lock_without_deps_def list_all_update
           split: option.splits)

lemma unlock_fold_ok:
  "list_all no_lock_without_deps (fst acc) \<Longrightarrow> \<forall>i\<in>set is. i < length (fst acc) \<Longrightarrow>
   list_all no_lock_without_deps (fst (foldl (unlock_step done) acc is))"
proof (induction "is" arbitrary: acc)
  case Nil
  then show ?case by simp
next
  case (Cons i "is")
  from unlock_step_ok [of acc i "done"] Cons.prems
  have "list_all no_lock_without_deps (fst (unlock_step done acc i))"
    and "length (fst (unlock_step done acc i)) = length (fst acc)" by auto
  with Cons show ?case by simp
qed

lemma unlock_loop_ok:
  "list_all no_lock_without_deps s \<Longrightarrow> list_all no_lock_without_deps (fst (unlock_loop done s))"
  unfolding unlock_loop_def by (rule unlock_fold_ok) auto

lemma toggle_mem_ok:
  assumes "list_all no_lock_without_deps s"
  shows "list_all no_lock_without_deps (fst (toggle_mem i s))"
proof (cases "truthy i")
  case False
  with assms show ?thesis by (simp add: toggle_mem_def)
next
  case True
  show ?thesis
  proof (cases "findIndex (\<lambda>x. t_id x = i) s")
    case None
    with assms show ?thesis by (simp add: toggle_mem_def)
  next
    case (Some idx)
    from findIndex_Some [OF Some] have idx: "idx < length s" by simp
    let ?t = "(s ! idx) \<lparr> t_completed := Some (\<not> truthyb (t_completed (s ! idx))) \<rparr>"
    from assms idx have "no_lock_without_deps (s ! idx)"
      by (simp add: list_all_length)
    then have "no_lock_without_deps ?t"
      by (simp add: no_lock_without_deps_def)
    with assms have s1: "list_all no_lock_without_deps (s[idx := ?t])"
      by (rule list_all_update)
    obtain s2 out2 where loop: "unlock_loop (t_id ?t) (s[idx := ?t]) = (s2, out2)"
      by (cases "unlock_loop (t_id ?t) (s[idx := ?t])")
    with unlock_loop_ok [OF s1, of "t_id ?t"] have s2: "list_all no_lock_without_deps s2"
      by simp
    have "fst (toggle_mem i s) = (if truthyb (t_completed ?t) then s2 else s[idx := ?t])"
      using True Some loop
      by (cases "truthyb (t_completed (s ! idx))") (simp_all add: toggle_mem_def Let_def)
    with s1 s2 show ?thesis by (cases "truthyb (t_completed (s ! idx))") simp_all
  qed
qed

lemma reorder_entry_ok:
  assumes "list_all no_lock_without_deps s"
  shows "no_lock_without_deps (reorder_entry s ix)"
proof -
  obtain i ident where ix: "ix = (i, ident)" by (cases ix)
  show ?thesis
  proof (cases "lookup s ident")
    case (Task t)
    from lookup_Task [OF Task] assms have "no_lock_without_deps t"
      by (simp add: list_all_iff)
    with Task show ?thesis
      by (simp add: ix reorder_entry_def no_lock_without_deps_def)
  next
    case Other
    then show ?thesis
      by (simp add: ix reorder_entry_def no_lock_without_deps_def blank_def)
  next
    case Nothing
    then show ?thesis
      by (simp add: ix reorder_entry_def no_lock_without_deps_def placeholder_def)
  qed
qed

lemma handleMessage_mem_ok:
  assumes "list_all no_lock_without_deps s" "restores_checked (e, r)"
  shows "list_all no_lock_without_deps (fst (handleMessage_mem e r s))"
proof (cases r)
  case (TodoAdd p)
  with assms show ?thesis by (simp add: add_mem_ok)
next
  case (TodoEdit p)
  with assms show ?thesis by (simp add: edit_mem_ok)
next
  case (TodoToggle i)
  with assms show ?thesis by (simp add: toggle_mem_ok)
next
  case (Reorder order)
  with assms(1) show ?thesis
    by (simp add: reorder_mem_def Let_def list_all_iff reorder_entry_ok)
next
  case (RestoreMany items)
  with assms show ?thesis
    by (simp add: restoreMany_mem_def Let_def restores_checked_def)
qed (use assms in \<open>simp_all add: remove_mem_def clearCompleted_mem_def clearAll_mem_def
      getAllTodos_mem_def Let_def list_all_iff\<close>)

lemma run_mem_ok:
  "list_all no_lock_without_deps s \<Longrightarrow> list_all restores_checked rs \<Longrightarrow>
   list_all no_lock_without_deps (run_mem rs s)"
proof (induction rs arbitrary: s)
  case Nil
  then show ?case by simp
next
  case (Cons er rs)
  obtain e r where er: "er = (e, r)" by (cases er)
  with Cons.prems have "list_all no_lock_without_deps (fst (handleMessage_mem e r s))"
    by (simp add: handleMessage_mem_ok)
  with Cons er show ?case by simp
qed

subsection \<open>Locked tasks have dependencies: in MongoDB\<close>

lemma map_id_updateById:
  "(\<And>x. d_id (f x) = d_id x) \<Longrightarrow> map d_id (updateById i f docs) = map d_id docs"
  by (simp add: updateById_def)

lemma list_all_updateById:
  "list_all P docs \<Longrightarrow> (\<And>x. x \<in> set docs \<Longrightarrow> d_id x = i \<Longrightarrow> P (f x)) \<Longrightarrow>
   list_all P (updateById i f docs)"
  by (auto simp: updateById_def list_all_iff)

lemma inv_mongo_updateById:
  assumes "inv_mongo docs" "\<And>x. d_id (f x) = d_id x"
    and "\<And>x. x \<in> set docs \<Longrightarrow> d_id x = i \<Longrightarrow> no_lock_without_deps_doc (f x)"
  shows "inv_mongo (updateById i f docs)"
  using assms by (simp add: inv_mongo_def map_id_updateById list_all_updateById)

lemma computeLockedFor_mongo_True:
  "computeLockedFor_mongo e docs deps = Inr True \<Longrightarrow> deps \<noteq> []"
  by (auto simp: computeLockedFor_mongo_def)

lemma add_mongo_inv: "inv_mongo docs \<Longrightarrow> inv_mongo (fst (add_mongo e p docs))"
  using add_mongo_cases [of e p docs]
  by (auto simp: inv_mongo_def no_lock_without_deps_doc_def
           dest: computeLockedFor_mongo_True)

lemma distinct_id_unique:
  "distinct (map d_id docs) \<Longrightarrow> x \<in> set docs \<Longrightarrow> y \<in> set docs \<Longrightarrow> d_id x = d_id y \<Longrightarrow> x = y"
  by (meson distinct_map inj_on_def)

lemma edit_mongo_inv:
  assumes "inv_mongo docs"
  shows "inv_mongo (fst (edit_mongo e p docs))"
proof (cases "truthy (p_id p)")
  case False
  with assms show ?thesis by (simp add: edit_mongo_def)
next
  case True
  show ?thesis
  proof (cases "castObjectId e (str_of (p_id p))")
    case None
    with assms show ?thesis by (simp add: edit_mongo_cast_error)
  next
    case (Some oid)
    show ?thesis
    proof (cases "docById oid docs")
      case None
      with assms Some show ?thesis by (simp add: edit_mongo_missing)
    next
      case found: (Some d)
      let ?d1 = "edit_fields_mongo e p d"
      let ?docs1 = "updateById oid (edit_fields_mongo e p) docs"
      from assms have dist: "distinct (map d_id docs)"
        and ok: "list_all no_lock_without_deps_doc docs"
        by (simp_all add: inv_mongo_def)
      from docById_Some [OF found] have d: "d \<in> set docs" "d_id d = oid" by simp_all
      have u: "x = d" if "x \<in> set docs" "d_id x = oid" for x
        using distinct_id_unique [OF dist that(1) d(1)] that(2) d(2) by simp
      from ok d(1) have okd: "no_lock_without_deps_doc d" by (simp add: list_all_iff)
      show ?thesis
      proof (cases "computeLockedFor_mongo e docs (d_dependencies ?d1)")
        case (Inl err)
        then have ne: "d_dependencies ?d1 \<noteq> []"
          by (simp add: computeLockedFor_mongo_error)
        have "inv_mongo ?docs1"
        proof (rule inv_mongo_updateById [OF assms])
          fix x assume "x \<in> set docs" "d_id x = oid"
          from u [OF this] ne show "no_lock_without_deps_doc (edit_fields_mongo e p x)"
            by (simp add: no_lock_without_deps_doc_def)
        qed simp
        with Inl show ?thesis by (simp add: edit_mongo_found [OF True Some found])
      next
        case (Inr l)
        have l: "l \<longrightarrow> d_dependencies ?d1 \<noteq> []"
          using Inr by (auto dest: computeLockedFor_mongo_True)
        have fin: "fst (edit_mongo e p docs) =
            updateById oid (\<lambda>x. (if l \<noteq> d_locked d
               then (\<lambda>y. y \<lparr> d_locked := l, d_updatedAt := now e \<rparr>) else (\<lambda>y. y))
              (edit_fields_mongo e p x)) docs"
          using Inr by (simp add: edit_mongo_found [OF True Some found] updateById_twice)
        show ?thesis
          unfolding fin
        proof (rule inv_mongo_updateById [OF assms])
          fix x assume "x \<in> set docs" "d_id x = oid"
          from u [OF this] l okd
          show "no_lock_without_deps_doc
              ((if l \<noteq> d_locked d then (\<lambda>y. y \<lparr> d_locked := l, d_updatedAt := now e \<rparr>)
                else (\<lambda>y. y)) (edit_fields_mongo e p x))"
            by (auto simp: no_lock_without_deps_doc_def)
        qed simp
      qed
    qed
  qed
qed

lemma unlock_dependents_inv:
  "inv_mongo docs \<Longrightarrow> inv_mongo (fst (unlock_dependents e deps docs))"
proof (induction deps arbitrary: docs)
  case Nil
  then show ?case by simp
next
  case (Cons dep rest)
  let ?docs1 = "updateById (d_id dep) (\<lambda>x. x \<lparr> d_locked := False, d_updatedAt := now e \<rparr>) docs"
  from Cons.prems have "inv_mongo ?docs1"
    by (intro inv_mongo_updateById) (simp_all add: no_lock_without_deps_doc_def)
  with Cons.IH [of ?docs1] Cons.IH [of docs] Cons.prems show ?case
    by (simp add: Let_def case_prod_beta split: option.splits sum.splits)
qed

lemma toggle_mongo_inv:
  assumes "inv_mongo docs"
  shows "inv_mongo (fst (toggle_mongo e i docs))"
proof (cases "truthy i")
  case False
  with assms show ?thesis by (simp add: toggle_mongo_def)
next
  case True
  show ?thesis
  proof (cases "findById e (str_of i) docs")
    case (Inl err)
    with assms show ?thesis by (simp add: toggle_mongo_def)
  next
    case (Inr found)
    show ?thesis
    proof (cases found)
      case None
      with Inr assms show ?thesis by (simp add: toggle_mongo_def)
    next
      case (Some d0)
      let ?d = "d0 \<lparr> d_completed := \<not> d_completed d0, d_updatedAt := now e \<rparr>"
      let ?docs1 = "updateById (d_id ?d) (\<lambda>x. ?d) docs"
      show ?thesis
      proof (cases "validates ?d")
        case False
        with Inr Some assms show ?thesis by (simp add: toggle_mongo_def save_def)
      next
        case valid: True
        from Inr Some have "docById (d_id d0) docs = Some d0"
          by (auto simp: findById_def split: option.splits dest: docById_Some)
        from docById_Some [OF this] have d0: "d0 \<in> set docs" by simp
        with assms have okd: "no_lock_without_deps_doc ?d"
          by (simp add: inv_mongo_def list_all_iff no_lock_without_deps_doc_def)
        have "map d_id ?docs1 = map d_id docs"
          by (simp add: updateById_def)
        moreover have "list_all no_lock_without_deps_doc ?docs1"
          using assms okd by (intro list_all_updateById) (simp_all add: inv_mongo_def)
        ultimately have s1: "inv_mongo ?docs1"
          using assms by (simp add: inv_mongo_def)
        obtain docs2 out2 where loop:
          "unlock_dependents e (filter (\<lambda>x. d_id ?d \<in> set (d_dependencies x)) ?docs1) ?docs1 = (docs2, out2)"
          by (cases "unlock_dependents e (filter (\<lambda>x. d_id ?d \<in> set (d_dependencies x)) ?docs1) ?docs1")
        with unlock_dependents_inv [OF s1, of e "filter (\<lambda>x. d_id ?d \<in> set (d_dependencies x)) ?docs1"]
        have s2: "inv_mongo docs2" by simp
        have "fst (toggle_mongo e i docs) = (if d_completed ?d then docs2 else ?docs1)"
          using True Inr Some valid loop
          by (cases "d_completed d0") (simp_all add: toggle_mongo_def save_def Let_def)
        with s1 s2 show ?thesis by (cases "d_completed d0") simp_all
      qed
    qed
  qed
qed

lemma reorder_loop_inv: "inv_mongo docs \<Longrightarrow> inv_mongo (fst (reorder_loop e ixs docs))"
proof (induction ixs arbitrary: docs)
  case Nil
  then show ?case by simp
next
  case (Cons ix ixs)
  obtain i ident where ix: "ix = (i, ident)" by (cases ix)
  show ?case
  proof (cases "castObjectId e ident")
    case None
    with Cons.prems show ?thesis by (simp add: ix findByIdAndUpdate_def)
  next
    case (Some oid)
    from Cons.prems
    have "inv_mongo (updateById oid (\<lambda>d. d \<lparr> d_position := int i, d_updatedAt := now e \<rparr>) docs)"
      by (intro inv_mongo_updateById)
         (auto simp: inv_mongo_def no_lock_without_deps_doc_def list_all_iff)
    from Cons.IH [OF this] show ?thesis by (simp add: ix findByIdAndUpdate_def Some)
  qed
qed

lemma reorder_mongo_store: "fst (reorder_mongo e order docs) = fst (reorder_loop e (enumerate 0 order) docs)"
  by (simp add: reorder_mongo_def split: prod.splits option.splits)

lemma restoreMany_mongo_inv:
  assumes "inv_mongo docs"
  shows "inv_mongo (fst (restoreMany_mongo e items docs))"
proof -
  let ?new = "map (restored_doc e) (enumerate 0 items)"
  have "inv_mongo (fst (insertOrdered ?new docs))"
  proof -
    from insertOrdered_prefix [of ?new docs] obtain k where
      k: "fst (insertOrdered ?new docs) = docs @ take k ?new" by blast
    have "list_all no_lock_without_deps_doc (take k ?new)"
      by (auto simp: list_all_iff no_lock_without_deps_doc_def restored_doc_def
          dest!: in_set_takeD)
    with assms have "list_all no_lock_without_deps_doc (docs @ take k ?new)"
      by (simp add: inv_mongo_def)
    moreover from assms have "distinct (map d_id (fst (insertOrdered ?new docs)))"
      by (intro insertOrdered_distinct) (simp add: inv_mongo_def)
    ultimately show ?thesis by (simp add: inv_mongo_def k)
  qed
  moreover have "fst (restoreMany_mongo e items docs) = docs \<or>
      fst (restoreMany_mongo e items docs) = fst (insertOrdered ?new docs)"
    by (auto simp: restoreMany_mongo_def insertMany_def split: prod.splits option.splits)
  ultimately show ?thesis using assms by auto
qed

lemma remove_mongo_inv: "inv_mongo docs \<Longrightarrow> inv_mongo (fst (remove_mongo e i docs))"
  by (auto simp: remove_mongo_def findByIdAndDelete_def deleteById_def inv_mongo_def
      list_all_iff distinct_map_filter split: option.splits)

lemma handleMessage_mongo_inv:
  assumes "inv_mongo docs"
  shows "inv_mongo (fst (handleMessage_mongo e r docs))"
proof (cases r)
  case (TodoAdd p)
  with assms show ?thesis by (simp add: add_mongo_inv)
next
  case (TodoEdit p)
  with assms show ?thesis by (simp add: edit_mongo_inv)
next
  case (TodoRemove i)
  with assms show ?thesis by (simp add: remove_mongo_inv)
next
  case (TodoToggle i)
  with assms show ?thesis by (simp add: toggle_mongo_inv)
next
  case (Reorder order)
  with assms show ?thesis by (simp add: reorder_mongo_store reorder_loop_inv)
next
  case (RestoreMany items)
  with assms show ?thesis by (simp add: restoreMany_mongo_inv)
qed (use assms in \<open>simp_all add: clearCompleted_mongo_def clearAll_mongo_def
      inv_mongo_def Let_def list_all_iff distinct_map_filter\<close>)

lemma run_mongo_inv: "inv_mongo docs \<Longrightarrow> inv_mongo (run_mongo rs docs)"
proof (induction rs arbitrary: docs)
  case Nil
  then show ?case by simp
next
  case (Cons er rs)
  obtain e r where er: "er = (e, r)" by (cases er)
  with Cons.prems have "inv_mongo (fst (handleMessage_mongo e r docs))"
    by (simp add: handleMessage_mongo_inv)
  with Cons er show ?case by simp
qed

subsection \<open>The two backends side by side\<close>






subsection \<open>Unlock propagation in MongoDB\<close>

lemma docById_member:
  "distinct (map d_id docs) \<Longrightarrow> d \<in> set docs \<Longrightarrow> docById (d_id d) docs = Some d"
proof (induction docs)
  case Nil
  then show ?case by simp
next
  case (Cons x docs)
  then show ?case by (auto simp: docById_def)
qed

lemma updateById_member:
  assumes "distinct (map d_id docs)" "d \<in> set docs"
  shows "updateById (d_id d) f docs = map (\<lambda>x. if x = d then f x else x) docs"
  unfolding updateById_def
proof (rule map_cong [OF refl])
  fix x assume "x \<in> set docs"
  with distinct_id_unique [OF assms(1) this assms(2)]
  show "(if d_id x = d_id d then f x else x) = (if x = d then f x else x)" by auto
qed

lemma unlockable_cong:
  "map (\<lambda>d. (d_id d, d_completed d)) docs' = map (\<lambda>d. (d_id d, d_completed d)) docs \<Longrightarrow>
   unlockable e docs' = unlockable e docs"
  by (simp add: unlockable_def fun_eq_iff computeLockedFor_mongo_cong [of docs' docs])

lemma unlockable_castable:
  "castable e (d_dependencies b) \<Longrightarrow>
   unlockable e docs b \<longleftrightarrow>
     d_locked b \<and> (\<exists>l. computeLockedFor_mongo e docs (d_dependencies b) = Inr l \<and> \<not> l)"
  by (auto simp: unlockable_def)

text \<open>
  The loop as a map over the collection, when the dependencies of every dependent are
  cast to \<^verbatim>\<open>ObjectId\<close>s.
\<close>

lemma unlock_dependents_char:
  assumes "distinct (map d_id docs)" "distinct (map d_id deps)" "set deps \<subseteq> set docs"
    and "\<forall>b\<in>set deps. castable e (d_dependencies b)"
  shows "unlock_dependents e deps docs =
     (map (\<lambda>x. if x \<in> set deps \<and> unlockable e docs x
                then x \<lparr> d_locked := False, d_updatedAt := now e \<rparr> else x) docs,
      concat (map unlock_messages (filter (unlockable e docs) deps)))"
  using assms
proof (induction deps arbitrary: docs)
  case Nil
  then show ?case by (simp add: map_idI)
next
  case (Cons dep rest)
  let ?upd = "\<lambda>x. x \<lparr> d_locked := False, d_updatedAt := now e \<rparr>"
  from Cons.prems have dep: "dep \<in> set docs" and rest: "set rest \<subseteq> set docs"
    and dr: "distinct (map d_id rest)" and notin: "d_id dep \<notin> d_id ` set rest"
    and cr: "\<forall>b\<in>set rest. castable e (d_dependencies b)"
    and cd: "castable e (d_dependencies dep)"
    by auto
  from computeLockedFor_mongo_castable [OF cd, of docs] obtain l where
    l: "computeLockedFor_mongo e docs (d_dependencies dep) = Inr l" by blast
  then have ul: "unlockable e docs dep \<longleftrightarrow> d_locked dep \<and> \<not> l"
    by (simp add: unlockable_def)
  show ?case
  proof (cases "unlockable e docs dep")
    case False
    with ul l have "unlock_dependents e (dep # rest) docs = unlock_dependents e rest docs"
      by auto
    also note Cons.IH [OF Cons.prems(1) dr rest cr]
    finally show ?thesis
      using False by (auto intro!: map_cong)
  next
    case True
    let ?docs1 = "updateById (d_id dep) ?upd docs"
    have docs1: "?docs1 = map (\<lambda>x. if x = dep then ?upd x else x) docs"
      by (rule updateById_member [OF Cons.prems(1) dep])
    have ids1: "map d_id ?docs1 = map d_id docs"
      by (simp add: updateById_def)
    then have dist1: "distinct (map d_id ?docs1)"
      using Cons.prems(1) by simp
    have keys1: "map (\<lambda>d. (d_id d, d_completed d)) ?docs1 = map (\<lambda>d. (d_id d, d_completed d)) docs"
      by (simp add: updateById_def)
    have u1: "unlockable e ?docs1 = unlockable e docs"
      by (rule unlockable_cong [OF keys1])
    have rest1: "set rest \<subseteq> set ?docs1"
    proof
      fix x assume x: "x \<in> set rest"
      with notin have "x \<noteq> dep" by auto
      moreover from x rest have "x \<in> set docs" by auto
      ultimately show "x \<in> set ?docs1" unfolding docs1 by auto
    qed
    have found: "docById (d_id dep) ?docs1 = Some (?upd dep)"
      using docById_member [OF Cons.prems(1) dep]
      by (simp add: docById_update)
    have msg: "[Broadcast (SyncUpdate ((todo_of_doc (?upd dep)) \<lparr> t_locked := Some False \<rparr>)),
                Broadcast (Reminder (Str (d_id (?upd dep))) ''A dependency finished - this task is unlocked.'')]
               = unlock_messages dep"
      by (simp add: unlock_messages_def todo_of_doc_def)
    have step: "unlock_dependents e (dep # rest) docs =
        (fst (unlock_dependents e rest ?docs1),
         unlock_messages dep @ snd (unlock_dependents e rest ?docs1))"
      using True ul l found msg
      by (simp add: Let_def case_prod_beta del: todo.simps doc.simps)
    have fst1: "map (\<lambda>x. if x \<in> set rest \<and> unlockable e docs x then ?upd x else x) ?docs1 =
          map (\<lambda>x. if x \<in> set (dep # rest) \<and> unlockable e docs x then ?upd x else x) docs"
      unfolding docs1 map_map
    proof (rule map_cong [OF refl])
      fix x assume x: "x \<in> set docs"
      show "((\<lambda>x. if x \<in> set rest \<and> unlockable e docs x then ?upd x else x) \<circ>
             (\<lambda>x. if x = dep then ?upd x else x)) x =
            (if x \<in> set (dep # rest) \<and> unlockable e docs x then ?upd x else x)"
      proof (cases "x = dep")
        case True
        have "?upd dep \<notin> set rest"
        proof
          assume "?upd dep \<in> set rest"
          then have "d_id (?upd dep) \<in> d_id ` set rest" by (rule imageI)
          with notin show False by simp
        qed
        with True \<open>unlockable e docs dep\<close> show ?thesis by simp
      next
        case False
        then show ?thesis by simp
      qed
    qed
    show ?thesis
      unfolding step Cons.IH [OF dist1 dr rest1 cr] u1
      using True fst1 by simp
  qed
qed

lemma toggle_mongo_to_completed:
  fixes e :: env and T :: doc
  assumes "distinct (map d_id docs)" "truthy i" "castObjectId e (str_of i) = Some oid"
    and "docById oid docs = Some T" "\<not> d_completed T" "truthy (d_text T)"
    and "\<forall>b\<in>set docs. d_id T \<in> set (d_dependencies b) \<longrightarrow> castable e (d_dependencies b)"
  defines "T' \<equiv> T \<lparr> d_completed := True, d_updatedAt := now e \<rparr>"
  defines "docs1 \<equiv> map (\<lambda>x. if x = T then T' else x) docs"
  defines "released \<equiv> filter (\<lambda>b. d_id T \<in> set (d_dependencies b) \<and> unlockable e docs1 b) docs1"
  shows "toggle_mongo e i docs =
     (map (\<lambda>x. if x \<in> set released then x \<lparr> d_locked := False, d_updatedAt := now e \<rparr> else x) docs1,
      Broadcast (SyncUpdate (todo_of_doc T')) # concat (map unlock_messages released))"
proof -
  from docById_Some [OF assms(4)] have T: "T \<in> set docs" "d_id T = oid" by simp_all
  have d1: "updateById (d_id T') (\<lambda>x. T') docs = docs1"
    using updateById_member [OF assms(1) T(1), of "\<lambda>x. T'"]
    by (simp add: T'_def docs1_def)
  have "map d_id docs1 = map d_id docs"
    by (auto simp: docs1_def T'_def)
  with assms(1) have dist1: "distinct (map d_id docs1)" by simp
  let ?deps = "filter (\<lambda>x. d_id T' \<in> set (d_dependencies x)) docs1"
  have dd: "distinct (map d_id ?deps)"
    using dist1 by (rule distinct_map_filter)
  have sub: "set ?deps \<subseteq> set docs1" by auto
  have cast: "\<forall>b\<in>set ?deps. castable e (d_dependencies b)"
  proof
    fix b assume "b \<in> set ?deps"
    then obtain y where y: "y \<in> set docs" "b = (if y = T then T' else y)"
      and b: "d_id T \<in> set (d_dependencies b)"
      by (auto simp: docs1_def T'_def)
    from y(2) have "d_dependencies b = d_dependencies y"
      by (simp add: T'_def)
    with assms(7) y(1) b show "castable e (d_dependencies b)" by simp
  qed
  have rel: "filter (unlockable e docs1) ?deps = released"
    by (auto simp: released_def T'_def intro!: filter_cong)
  have mp: "map (\<lambda>x. if x \<in> set ?deps \<and> unlockable e docs1 x
                       then x \<lparr> d_locked := False, d_updatedAt := now e \<rparr> else x) docs1 =
            map (\<lambda>x. if x \<in> set released
                       then x \<lparr> d_locked := False, d_updatedAt := now e \<rparr> else x) docs1"
    by (rule map_cong [OF refl]) (auto simp: released_def T'_def)
  have c: "d_completed T'" "validates T'" using assms(6) by (simp_all add: T'_def validates_def)
  have "toggle_mongo e i docs =
      (fst (unlock_dependents e ?deps docs1),
       Broadcast (SyncUpdate (todo_of_doc T')) # snd (unlock_dependents e ?deps docs1))"
    using assms(2,3,4,5) d1 c
    by (simp add: toggle_mongo_def findById_def save_def Let_def case_prod_beta
        T'_def [symmetric] del: todo.simps doc.simps)
  then show ?thesis
    unfolding unlock_dependents_char [OF dist1 dd sub cast] rel mp by simp
qed

lemma toggle_mongo_to_open:
  assumes "distinct (map d_id docs)" "truthy i" "castObjectId e (str_of i) = Some oid"
    and "docById oid docs = Some T" "d_completed T" "truthy (d_text T)"
  shows "toggle_mongo e i docs =
     (map (\<lambda>x. if x = T then T \<lparr> d_completed := False, d_updatedAt := now e \<rparr> else x) docs,
      [Broadcast (SyncUpdate (todo_of_doc (T \<lparr> d_completed := False, d_updatedAt := now e \<rparr>)))])"
proof -
  from docById_Some [OF assms(4)] have T: "T \<in> set docs" by simp
  from updateById_member [OF assms(1) T,
      of "\<lambda>x. T \<lparr> d_completed := False, d_updatedAt := now e \<rparr>"] assms(2,3,4,5,6)
  show ?thesis
    by (simp add: toggle_mongo_def findById_def save_def validates_def Let_def)
qed

lemma unlock_messages_updates:
  "filter (is_update_for (Str ident)) (concat (map unlock_messages bs)) =
   map (\<lambda>b. Broadcast (SyncUpdate (todo_of_doc (b \<lparr> d_locked := False \<rparr>))))
     (filter (\<lambda>b. d_id b = ident) bs)"
  by (induction bs) (simp_all add: unlock_messages_def)

lemma unlock_messages_reminders:
  "filter (is_reminder_for (Str ident)) (concat (map unlock_messages bs)) =
   map (\<lambda>b. Broadcast (Reminder (Str (d_id b)) ''A dependency finished - this task is unlocked.''))
     (filter (\<lambda>b. d_id b = ident) bs)"
  by (induction bs) (simp_all add: unlock_messages_def)

lemma filter_id_single:
  assumes "distinct (map d_id bs)" "b \<in> set bs"
  shows "filter (\<lambda>x. d_id x = d_id b) bs = [b]"
  using assms
proof (induction bs)
  case Nil
  then show ?case by simp
next
  case (Cons x bs)
  show ?case
  proof (cases "x = b")
    case True
    from Cons.prems(1) True have "d_id b \<notin> d_id ` set bs" by simp
    then have "\<forall>y\<in>set bs. d_id y \<noteq> d_id b" by (metis imageI)
    then have "filter (\<lambda>x. d_id x = d_id b) bs = []"
      by (simp add: filter_empty_conv)
    with True show ?thesis by simp
  next
    case False
    with Cons.prems have "b \<in> set bs" "d_id x \<noteq> d_id b" by auto
    with Cons show ?thesis by simp
  qed
qed

text \<open>
  In MongoDB the completion of the sole blocker releases the dependent and sends its two
  messages after the update of the completed task.
\<close>

lemma toggle_mongo_sole_blocker:
  fixes e :: env and T B :: doc
  assumes dist: "distinct (map d_id docs)" and i: "truthy i"
    and oid: "castObjectId e (str_of i) = Some oid"
    and T: "docById oid docs = Some T" and open_T: "\<not> d_completed T"
    and text_T: "truthy (d_text T)"
    and cast: "\<forall>b\<in>set docs. d_id T \<in> set (d_dependencies b) \<longrightarrow> castable e (d_dependencies b)"
    and B: "B \<in> set docs" "d_id T \<in> set (d_dependencies B)" "d_locked B"
    and sole: "\<forall>x\<in>set docs. Some (d_id x) \<in> castObjectId e ` set (d_dependencies B) \<longrightarrow>
                 x = T \<or> d_completed x"
  shows "map_option d_locked (docById (d_id B) (fst (toggle_mongo e i docs))) = Some False \<and>
         hd (snd (toggle_mongo e i docs)) =
           Broadcast (SyncUpdate (todo_of_doc (T \<lparr> d_completed := True, d_updatedAt := now e \<rparr>))) \<and>
         length (filter (is_update_for (Str (d_id B))) (tl (snd (toggle_mongo e i docs)))) = 1 \<and>
         length (filter (is_reminder_for (Str (d_id B))) (tl (snd (toggle_mongo e i docs)))) = 1"
proof -
  define T' where "T' = T \<lparr> d_completed := True, d_updatedAt := now e \<rparr>"
  define docs1 where "docs1 = map (\<lambda>x. if x = T then T' else x) docs"
  define released where
    "released = filter (\<lambda>b. d_id T \<in> set (d_dependencies b) \<and> unlockable e docs1 b) docs1"
  define B1 where "B1 = (if B = T then T' else B)"
  let ?upd = "\<lambda>x. x \<lparr> d_locked := False, d_updatedAt := now e \<rparr>"
  note tg = toggle_mongo_to_completed [OF dist i oid T open_T text_T cast,
      folded T'_def, folded docs1_def, folded released_def]
  have ids1: "map d_id docs1 = map d_id docs"
    by (auto simp: docs1_def T'_def)
  with dist have dist1: "distinct (map d_id docs1)" by simp
  have B1: "B1 \<in> set docs1" "d_id B1 = d_id B" "d_dependencies B1 = d_dependencies B"
    "d_locked B1 = d_locked B"
    using B(1) by (auto simp: B1_def docs1_def T'_def)
  from cast B(1,2) have cB: "castable e (d_dependencies B)" by simp
  have "computeLockedFor_mongo e docs1 (d_dependencies B) = Inr False"
  proof -
    have "\<not> (\<exists>x\<in>set docs1. Some (d_id x) \<in> castObjectId e ` set (d_dependencies B) \<and>
               \<not> d_completed x)"
    proof
      assume "\<exists>x\<in>set docs1. Some (d_id x) \<in> castObjectId e ` set (d_dependencies B) \<and>
               \<not> d_completed x"
      then obtain x where x: "x \<in> set docs1"
        "Some (d_id x) \<in> castObjectId e ` set (d_dependencies B)" "\<not> d_completed x"
        by blast
      from x(1) obtain y where y: "y \<in> set docs" "x = (if y = T then T' else y)"
        by (auto simp: docs1_def)
      with x(2,3) sole show False
        by (auto simp: T'_def split: if_splits)
    qed
    then show ?thesis
      by (simp add: computeLockedFor_mongo_castable [OF cB])
  qed
  with B1 B(2,3) have rel: "B1 \<in> set released"
    by (simp add: released_def unlockable_def)
  have dr: "distinct (map d_id released)"
    unfolding released_def using dist1 by (rule distinct_map_filter)
  from filter_id_single [OF dr rel] B1(2)
  have single: "filter (\<lambda>x. d_id x = d_id B) released = [B1]" by simp
  let ?docs2 = "map (\<lambda>x. if x \<in> set released then ?upd x else x) docs1"
  have ids2: "map d_id ?docs2 = map d_id docs1" by auto
  from dist1 have dist2: "distinct (map d_id ?docs2)" unfolding ids2 .
  from rel B1(1) have "?upd B1 \<in> set ?docs2" by force
  from docById_member [OF dist2 this] B1(2)
  have "map_option d_locked (docById (d_id B) ?docs2) = Some False" by simp
  then show ?thesis
    by (simp add: tg unlock_messages_updates unlock_messages_reminders single T'_def)
qed

lemma toggle_mongo_other_dependents:
  fixes e :: env and T b :: doc
  assumes dist: "distinct (map d_id docs)" and i: "truthy i"
    and oid: "castObjectId e (str_of i) = Some oid"
    and T: "docById oid docs = Some T" and open_T: "\<not> d_completed T"
    and text_T: "truthy (d_text T)"
    and cast: "\<forall>b\<in>set docs. d_id T \<in> set (d_dependencies b) \<longrightarrow> castable e (d_dependencies b)"
    and b: "b \<in> set (map (\<lambda>x. if x = T then T \<lparr> d_completed := True, d_updatedAt := now e \<rparr> else x) docs)"
    and no: "d_id T \<notin> set (d_dependencies b) \<or> \<not> d_locked b \<or>
      computeLockedFor_mongo e
        (map (\<lambda>x. if x = T then T \<lparr> d_completed := True, d_updatedAt := now e \<rparr> else x) docs)
        (d_dependencies b) = Inr True"
  shows "b \<in> set (fst (toggle_mongo e i docs)) \<and>
         filter (is_update_for (Str (d_id b))) (tl (snd (toggle_mongo e i docs))) = [] \<and>
         filter (is_reminder_for (Str (d_id b))) (tl (snd (toggle_mongo e i docs))) = []"
proof -
  define T' where "T' = T \<lparr> d_completed := True, d_updatedAt := now e \<rparr>"
  define docs1 where "docs1 = map (\<lambda>x. if x = T then T' else x) docs"
  define released where
    "released = filter (\<lambda>b. d_id T \<in> set (d_dependencies b) \<and> unlockable e docs1 b) docs1"
  note tg = toggle_mongo_to_completed [OF dist i oid T open_T text_T cast,
      folded T'_def, folded docs1_def, folded released_def]
  have "map d_id docs1 = map d_id docs"
    by (auto simp: docs1_def T'_def)
  with dist have dist1: "distinct (map d_id docs1)" by simp
  from b have b1: "b \<in> set docs1" by (simp add: docs1_def T'_def)
  from no have "d_id T \<notin> set (d_dependencies b) \<or> \<not> d_locked b \<or>
      computeLockedFor_mongo e docs1 (d_dependencies b) = Inr True"
    by (simp only: docs1_def T'_def)
  then have nr: "b \<notin> set released"
    by (auto simp: released_def unlockable_def)
  have "filter (\<lambda>x. d_id x = d_id b) released = []"
  proof (rule ccontr)
    assume "filter (\<lambda>x. d_id x = d_id b) released \<noteq> []"
    then obtain x where x: "x \<in> set released" "d_id x = d_id b"
      by (auto simp: filter_empty_conv)
    then have "x \<in> set docs1" by (simp add: released_def)
    from distinct_id_unique [OF dist1 this b1 x(2)] x(1) nr show False by simp
  qed
  moreover from b1 nr have "b \<in> set (map (\<lambda>x. if x \<in> set released
      then x \<lparr> d_locked := False, d_updatedAt := now e \<rparr> else x) docs1)"
    by force
  ultimately show ?thesis
    by (simp add: tg unlock_messages_updates unlock_messages_reminders)
qed

subsection \<open>Unlock propagation in memory\<close>

lemma release_keys [simp]: "t_id (release t) = t_id t" "t_completed (release t) = t_completed t"
  by (simp_all add: release_def)

lemma unlock_step_eq:
  assumes "i < length s"
  shows "unlock_step done (s, outs) i =
     (if releasable done s (s ! i)
      then (s[i := release (s ! i)], outs @ release_messages (s ! i))
      else (s, outs))"
  by (auto simp: unlock_step_def releasable_def release_def release_messages_def Let_def
        split: option.splits)

lemma releasable_cong:
  "blocked_mem s' = blocked_mem s \<Longrightarrow> releasable done s' t = releasable done s t"
  by (simp add: releasable_def split: option.splits)

lemma unlock_prefix:
  assumes "n \<le> length s"
  shows "foldl (unlock_step done) (s, []) [0..<n] =
     (map (\<lambda>t. if releasable done s t then release t else t) (take n s) @ drop n s,
      concat (map release_messages (filter (releasable done s) (take n s))))"
  using assms
proof (induction n)
  case 0
  then show ?case by simp
next
  case (Suc n)
  let ?f = "\<lambda>t. if releasable done s t then release t else t"
  let ?sn = "map ?f (take n s) @ drop n s"
  from Suc.prems have n: "n < length s" by simp
  have len: "length ?sn = length s" using n by simp
  have nth: "?sn ! n = s ! n"
    using n by (simp add: nth_append)
  have keys: "map (\<lambda>t. (t_id t, t_completed t)) ?sn = map (\<lambda>t. (t_id t, t_completed t)) s"
  proof -
    have "map (\<lambda>t. (t_id t, t_completed t)) (map ?f xs) = map (\<lambda>t. (t_id t, t_completed t)) xs" for xs
      by (induction xs) auto
    then have "map (\<lambda>t. (t_id t, t_completed t)) ?sn =
        map (\<lambda>t. (t_id t, t_completed t)) (take n s) @ map (\<lambda>t. (t_id t, t_completed t)) (drop n s)"
      by simp
    also have "\<dots> = map (\<lambda>t. (t_id t, t_completed t)) (take n s @ drop n s)"
      by (simp only: map_append)
    finally show ?thesis by simp
  qed
  have bl: "blocked_mem ?sn = blocked_mem s"
    using blocked_mem_cong [OF keys] by (simp add: fun_eq_iff)
  have rel: "releasable done ?sn t = releasable done s t" for t
    by (rule releasable_cong [OF bl])
  have upd: "?sn[n := x] = map ?f (take n s) @ x # drop (Suc n) s" for x
    using n by (simp add: list_update_append Cons_nth_drop_Suc [symmetric] del: Cons_nth_drop_Suc)
  have same: "?sn = map ?f (take n s) @ s ! n # drop (Suc n) s"
    using n by (simp add: Cons_nth_drop_Suc)
  have tk: "take (Suc n) s = take n s @ [s ! n]"
    using n by (simp add: take_Suc_conv_app_nth)
  have "foldl (unlock_step done) (s, []) [0..<Suc n] =
        unlock_step done (?sn, concat (map release_messages (filter (releasable done s) (take n s)))) n"
    using Suc.IH n by simp
  also have "\<dots> =
      (if releasable done s (s ! n)
       then (?sn[n := release (s ! n)],
             concat (map release_messages (filter (releasable done s) (take n s))) @
             release_messages (s ! n))
       else (?sn, concat (map release_messages (filter (releasable done s) (take n s)))))"
    using len n by (simp only: unlock_step_eq nth rel)
  also have "\<dots> =
      (map ?f (take (Suc n) s) @ drop (Suc n) s,
       concat (map release_messages (filter (releasable done s) (take (Suc n) s))))"
    unfolding upd tk using same by simp
  finally show ?case .
qed

lemma unlock_loop_char:
  "unlock_loop done s =
     (map (\<lambda>t. if releasable done s t then release t else t) s,
      concat (map release_messages (filter (releasable done s) s)))"
  using unlock_prefix [of "length s" s "done"] by (simp add: unlock_loop_def)

lemma toggle_mem_to_completed:
  assumes "truthy i" "findIndex (\<lambda>x. t_id x = i) s = Some idx"
    and "\<not> truthyb (t_completed (s ! idx))"
  defines "T' \<equiv> (s ! idx) \<lparr> t_completed := Some True \<rparr>"
  defines "s1 \<equiv> s[idx := T']"
  shows "toggle_mem i s =
     (map (\<lambda>t. if releasable i s1 t then release t else t) s1,
      Broadcast (SyncUpdate T') # concat (map release_messages (filter (releasable i s1) s1)))"
proof -
  from findIndex_Some [OF assms(2)] have "t_id (s ! idx) = i" by simp
  then have "t_id T' = i" "truthyb (t_completed T')" by (simp_all add: T'_def)
  with assms(1,2,3) show ?thesis
    by (simp add: toggle_mem_def Let_def unlock_loop_char T'_def [symmetric] s1_def [symmetric]
        del: todo.simps)
qed

lemma toggle_mem_to_open:
  assumes "truthy i" "findIndex (\<lambda>x. t_id x = i) s = Some idx"
    and "truthyb (t_completed (s ! idx))"
  shows "toggle_mem i s =
     (s[idx := (s ! idx) \<lparr> t_completed := Some False \<rparr>],
      [Broadcast (SyncUpdate ((s ! idx) \<lparr> t_completed := Some False \<rparr>))])"
  using assms by (simp add: toggle_mem_def Let_def)

lemma release_messages_updates:
  "filter (is_update_for ident) (concat (map release_messages bs)) =
   map (\<lambda>b. Broadcast (SyncUpdate (release b))) (filter (\<lambda>b. t_id b = ident) bs)"
  by (induction bs) (simp_all add: release_messages_def)

lemma release_messages_reminders:
  "filter (is_reminder_for ident) (concat (map release_messages bs)) =
   map (\<lambda>b. Broadcast (Reminder (t_id b) ''A dependency finished - this task is unlocked.''))
     (filter (\<lambda>b. t_id b = ident) bs)"
  by (induction bs) (simp_all add: release_messages_def)

lemma distinct_tid_unique:
  "distinct (map t_id s) \<Longrightarrow> x \<in> set s \<Longrightarrow> y \<in> set s \<Longrightarrow> t_id x = t_id y \<Longrightarrow> x = y"
  by (meson distinct_map inj_on_def)

lemma find_tid_member:
  assumes "distinct (map t_id s)" "x \<in> set s"
  shows "find (\<lambda>y. t_id y = t_id x) s = Some x"
proof (cases "find (\<lambda>y. t_id y = t_id x) s")
  case None
  with assms(2) show ?thesis by (auto simp: find_None_iff)
next
  case (Some y)
  from find_in_set [OF Some] distinct_tid_unique [OF assms(1) _ assms(2)] Some
  show ?thesis by auto
qed

lemma filter_tid_single:
  assumes "distinct (map t_id bs)" "b \<in> set bs"
  shows "filter (\<lambda>x. t_id x = t_id b) bs = [b]"
  using assms
proof (induction bs)
  case Nil
  then show ?case by simp
next
  case (Cons x bs)
  show ?case
  proof (cases "x = b")
    case True
    from Cons.prems(1) True have "t_id b \<notin> t_id ` set bs" by simp
    then have "\<forall>y\<in>set bs. t_id y \<noteq> t_id b" by (metis imageI)
    then have "filter (\<lambda>x. t_id x = t_id b) bs = []"
      by (simp add: filter_empty_conv)
    with True show ?thesis by simp
  next
    case False
    with Cons.prems have "b \<in> set bs" "t_id x \<noteq> t_id b" by auto
    with Cons show ?thesis by simp
  qed
qed

text \<open>
  In memory the completion of the sole blocker releases the dependent when every other
  dependency names a completed task of the store.
\<close>

lemma toggle_mem_sole_blocker:
  assumes dist: "distinct (map t_id s)" and i: "truthy i"
    and idx: "findIndex (\<lambda>x. t_id x = i) s = Some idx"
    and open_T: "\<not> truthyb (t_completed (s ! idx))"
    and B: "B \<in> set s" "t_dependencies B = Some ds" "array_includes ds i" "truthyb (t_locked B)"
    and sole: "\<forall>dep\<in>set ds. Str dep = i \<or> (\<exists>x\<in>set s. t_id x = Str dep \<and> truthyb (t_completed x))"
  shows "(\<forall>t\<in>set (fst (toggle_mem i s)). t_id t = t_id B \<longrightarrow> t_locked t = Some False) \<and>
         hd (snd (toggle_mem i s)) = Broadcast (SyncUpdate ((s ! idx) \<lparr> t_completed := Some True \<rparr>)) \<and>
         length (filter (is_update_for (t_id B)) (tl (snd (toggle_mem i s)))) = 1 \<and>
         length (filter (is_reminder_for (t_id B)) (tl (snd (toggle_mem i s)))) = 1"
proof -
  define T' where "T' = (s ! idx) \<lparr> t_completed := Some True \<rparr>"
  define s1 where "s1 = s[idx := T']"
  define B1 where "B1 = (if B = s ! idx then T' else B)"
  note tg = toggle_mem_to_completed [OF i idx open_T, folded T'_def, folded s1_def]
  from findIndex_Some [OF idx] have ix: "idx < length s" "t_id (s ! idx) = i" by simp_all
  have ids1: "map t_id s1 = map t_id s"
    using ix by (simp add: s1_def T'_def map_update list_update_same_conv)
  with dist have dist1: "distinct (map t_id s1)" by simp
  have T'1: "T' \<in> set s1" using ix(1) by (simp add: s1_def set_update_memI)
  have other: "x \<in> set s1" if "x \<in> set s" "x \<noteq> s ! idx" for x
  proof -
    from that(1) obtain j where j: "j < length s" "s ! j = x" by (auto simp: in_set_conv_nth)
    with that(2) have "j \<noteq> idx" by auto
    with j have "s1 ! j = x" "j < length s1" by (simp_all add: s1_def)
    then show ?thesis by (metis nth_mem)
  qed
  have B1: "B1 \<in> set s1" "t_id B1 = t_id B" "t_dependencies B1 = Some ds" "t_locked B1 = t_locked B"
    using B(1,2) T'1 other by (auto simp: B1_def T'_def)
  have nb: "\<not> blocked_mem s1 dep" if "dep \<in> set ds" for dep
  proof (cases "Str dep = i")
    case True
    have "t_id T' = Str dep" using ix(2) True by (simp add: T'_def)
    with find_tid_member [OF dist1 T'1] show ?thesis
      by (simp add: blocked_mem_def T'_def)
  next
    case False
    with sole that obtain x where x: "x \<in> set s" "t_id x = Str dep" "truthyb (t_completed x)"
      by blast
    with False ix(2) have "x \<noteq> s ! idx" by auto
    from find_tid_member [OF dist1 other [OF x(1) this]] x(2,3) show ?thesis
      by (simp add: blocked_mem_def)
  qed
  then have "\<not> list_ex (blocked_mem s1) ds" by (simp add: list_ex_iff)
  with B1 B(3,4) have relB: "releasable i s1 B1"
    by (simp add: releasable_def)
  let ?rel = "filter (releasable i s1) s1"
  from relB B1(1) have in_rel: "B1 \<in> set ?rel" by simp
  have dr: "distinct (map t_id ?rel)" using dist1 by (rule distinct_map_filter)
  from filter_tid_single [OF dr in_rel] B1(2)
  have single: "filter (\<lambda>x. t_id x = t_id B) ?rel = [B1]" by simp
  have locked: "t_locked t = Some False"
    if t: "t \<in> set (map (\<lambda>t. if releasable i s1 t then release t else t) s1)"
      and tid: "t_id t = t_id B" for t
  proof -
    from t obtain u where u: "u \<in> set s1" "t = (if releasable i s1 u then release u else u)"
      by auto
    with tid have "t_id u = t_id B1" by (auto simp: B1(2) split: if_splits)
    from distinct_tid_unique [OF dist1 u(1) B1(1) this] have "u = B1" .
    with u(2) relB show ?thesis by (simp add: release_def)
  qed
  have out: "hd (snd (toggle_mem i s)) = Broadcast (SyncUpdate T')"
    "tl (snd (toggle_mem i s)) = concat (map release_messages ?rel)"
    by (simp_all add: tg)
  have "filter (is_update_for (t_id B)) (tl (snd (toggle_mem i s))) =
        [Broadcast (SyncUpdate (release B1))]"
    unfolding out release_messages_updates single by simp
  moreover have "filter (is_reminder_for (t_id B)) (tl (snd (toggle_mem i s))) =
        [Broadcast (Reminder (t_id B1) ''A dependency finished - this task is unlocked.'')]"
    unfolding out release_messages_reminders single by simp
  moreover have "\<forall>t\<in>set (fst (toggle_mem i s)). t_id t = t_id B \<longrightarrow> t_locked t = Some False"
    using locked by (simp only: tg fst_conv) blast
  ultimately show ?thesis
    using out(1) by (simp add: T'_def)
qed

section \<open>Claims\<close>

text \<open>
  C1. The claim: in both backends a task is locked iff its dependency list is non-empty and
  some referenced task exists and is not completed; a dependency that references no task
  does not lock. The MongoDB branch of \<^verbatim>\<open>computeLockedFor\<close> computes exactly this for
  the ids it is able to look up (\<open>computeLockedFor_mongo_castable\<close>), the in-memory branch
  does not: a dependency without a task makes \<^verbatim>\<open>!(t && t.completed)\<close> true. The only
  dependency below names no task: the in-memory branch answers locked, the MongoDB branch
  unlocked.
\<close>

theorem computeLockedFor_dangling_dependency:
  "computeLockedFor_mem [example_todo ''a'' True [] False 0] [''ghost''] = True \<and>
   computeLockedFor_mongo (example_env 1) [example_doc (hex_id 1) True [] False 0] [hex_id 2]
     = Inr False"
  by code_simp

text \<open>
  C2. The claim: in every reachable state a task is locked iff some existing task it
  depends on is not completed, and a task without dependencies is never locked. The flag
  is a cached value. After \<open>B\<close> was unlocked by the completion of its dependency \<open>A\<close>,
  toggling \<open>A\<close> back to not completed leaves \<open>B\<close> unlocked, in both backends: only a
  toggle to completed looks at dependents. And the in-memory \<^verbatim>\<open>todo:restoreMany\<close> stores
  a snapshot that is locked without dependencies as it comes.
\<close>

theorem stale_lock_counterexample:
  "\<not> list_all (lock_consistent_mongo (example_env 5) (run_mongo stale_requests_mongo []))
       (run_mongo stale_requests_mongo []) \<and>
   \<not> list_all (lock_consistent_mem (run_mem stale_requests [])) (run_mem stale_requests []) \<and>
   \<not> list_all no_lock_without_deps
       (run_mem [(example_env 1, RestoreMany [example_todo ''x'' False [] True 0])] [])"
  by code_simp

text \<open>
  C2, as amended. In every state reachable from the empty store a locked task has at least
  one dependency: in MongoDB after any requests, in memory after any requests whose
  restored snapshots are themselves not locked without dependencies. An edit that
  supplies an empty dependency list to an existing task leaves it unlocked, in both
  backends; and right after a MongoDB edit of a task whose dependencies are then all
  \<^verbatim>\<open>ObjectId\<close> strings, the task is locked iff some existing task it depends on is not
  completed.
\<close>

theorem locked_tasks_have_dependencies:
  "list_all no_lock_without_deps_doc (run_mongo rs []) \<and>
   (list_all restores_checked rs \<longrightarrow> list_all no_lock_without_deps (run_mem rs [])) \<and>
   (truthy (p_id p) \<and> findIndex (\<lambda>x. t_id x = p_id p) s = Some idx \<and>
    p_dependencies p = Some [] \<longrightarrow>
      t_locked (fst (edit_mem e p s) ! idx) = Some False) \<and>
   (truthy (p_id p) \<and> castObjectId e (str_of (p_id p)) = Some oid \<and>
    docById oid docs = Some d \<and>
    castable e (case p_dependencies p of Some ds \<Rightarrow> ds | None \<Rightarrow> d_dependencies d) \<longrightarrow>
      (\<exists>d'. docById oid (fst (edit_mongo e p docs)) = Some d' \<and>
            lock_consistent_mongo e (fst (edit_mongo e p docs)) d' \<and>
            (p_dependencies p = Some [] \<longrightarrow> d_locked d' = False)))"
proof (intro conjI impI; (elim conjE)?)
  have "inv_mongo (run_mongo rs [])"
    by (rule run_mongo_inv) (simp add: inv_mongo_def)
  then show "list_all no_lock_without_deps_doc (run_mongo rs [])"
    by (simp add: inv_mongo_def)
next
  assume "list_all restores_checked rs"
  then show "list_all no_lock_without_deps (run_mem rs [])"
    by (intro run_mem_ok) simp_all
next
  assume h: "truthy (p_id p)" "findIndex (\<lambda>x. t_id x = p_id p) s = Some idx"
    and nodeps: "p_dependencies p = Some []"
  from findIndex_Some [OF h(2)] have "idx < length s" by simp
  with nodeps show "t_locked (fst (edit_mem e p s) ! idx) = Some False"
    by (simp add: edit_mem_store [OF h])
next
  assume h: "truthy (p_id p)" "castObjectId e (str_of (p_id p)) = Some oid"
    "docById oid docs = Some d"
    and c: "castable e (case p_dependencies p of Some ds \<Rightarrow> ds | None \<Rightarrow> d_dependencies d)"
  define deps where "deps = (case p_dependencies p of Some ds \<Rightarrow> ds | None \<Rightarrow> d_dependencies d)"
  define d1 where "d1 = edit_fields_mongo e p d"
  let ?docs' = "fst (edit_mongo e p docs)"
  have dd: "d_dependencies d1 = deps" by (simp add: d1_def deps_def)
  from c have c1: "castable e deps" by (simp add: deps_def)
  from computeLockedFor_mongo_castable [OF c1, of docs] obtain l where
    l: "computeLockedFor_mongo e docs deps = Inr l" by blast
  have "computeLockedFor_mongo e ?docs' deps = Inr l"
    using computeLockedFor_mongo_cong [OF edit_mongo_keys [of e p docs], of e deps] l by simp
  then have "l \<longleftrightarrow> (\<exists>x\<in>set ?docs'.
      Some (d_id x) \<in> castObjectId e ` set deps \<and> \<not> d_completed x)"
    unfolding computeLockedFor_mongo_castable [OF c1]
    using l by (auto simp: computeLockedFor_mongo_def)
  then have "lock_consistent_mongo e ?docs' (d1 \<lparr> d_locked := l \<rparr>)"
    by (simp add: lock_consistent_mongo_def list_ex_iff dd)
  moreover have "p_dependencies p = Some [] \<longrightarrow> d_locked (d1 \<lparr> d_locked := l \<rparr>) = False"
    using l by (auto simp: deps_def)
  moreover have "docById oid ?docs' = Some (d1 \<lparr> d_locked := l \<rparr>)"
    using l [unfolded deps_def] edit_mongo_doc [OF h] by (simp add: d1_def)
  ultimately show "\<exists>d'. docById oid ?docs' = Some d' \<and>
            lock_consistent_mongo e ?docs' d' \<and>
            (p_dependencies p = Some [] \<longrightarrow> d_locked d' = False)"
    by blast
qed

theorem locked_tasks_have_dependencies_witness:
  "list_all restores_checked locking_requests \<and>
   map d_locked (run_mongo locking_requests []) = [False, True, False] \<and>
   list_all no_lock_without_deps_doc (run_mongo locking_requests []) \<and>
   map t_locked (run_mem locking_requests []) = [None, None, Some True, Some True] \<and>
   list_all no_lock_without_deps (run_mem locking_requests []) \<and>
   t_locked (fst (edit_mem (example_env 5) (deps_payload ''b'' [])
      [example_todo ''b'' False [''a''] True 1, example_todo ''a'' False [] False 0]) ! 0)
     = Some False \<and>
   (\<exists>d'. docById (hex_id 2) (fst (edit_mongo (example_env 5) (deps_payload (hex_id 2) [])
        [example_doc (hex_id 1) False [] False 0,
         example_doc (hex_id 2) False [hex_id 1] True 1])) = Some d' \<and>
      \<not> d_locked d') \<and>
   (\<exists>d'. docById (hex_id 2) (fst (edit_mongo (example_env 5) (deps_payload (hex_id 2) [hex_id 1])
        [example_doc (hex_id 1) False [] False 0,
         example_doc (hex_id 2) False [] False 1])) = Some d' \<and>
      d_dependencies d' = [hex_id 1] \<and>
      lock_consistent_mongo (example_env 5)
        (fst (edit_mongo (example_env 5) (deps_payload (hex_id 2) [hex_id 1])
          [example_doc (hex_id 1) False [] False 0,
           example_doc (hex_id 2) False [] False 1])) d')"
proof -
  let ?s = "[example_todo ''b'' False [''a''] True 1, example_todo ''a'' False [] False 0]"
  let ?docs1 = "[example_doc (hex_id 1) False [] False 0,
                 example_doc (hex_id 2) False [hex_id 1] True 1]"
  let ?docs2 = "[example_doc (hex_id 1) False [] False 0,
                 example_doc (hex_id 2) False [] False 1]"
  have h1: "list_all restores_checked locking_requests"
    by code_simp
  have ev: "map d_locked (run_mongo locking_requests []) = [False, True, False] \<and>
      map t_locked (run_mem locking_requests []) = [None, None, Some True, Some True]"
    by code_simp
  have h2: "truthy (p_id (deps_payload ''b'' [])) \<and>
      findIndex (\<lambda>x. t_id x = p_id (deps_payload ''b'' [])) ?s = Some 0 \<and>
      p_dependencies (deps_payload ''b'' []) = Some []"
    by code_simp
  have h3: "truthy (p_id (deps_payload (hex_id 2) [])) \<and>
      castObjectId (example_env 5) (str_of (p_id (deps_payload (hex_id 2) []))) = Some (hex_id 2) \<and>
      docById (hex_id 2) ?docs1 = Some (example_doc (hex_id 2) False [hex_id 1] True 1) \<and>
      castable (example_env 5)
        (case p_dependencies (deps_payload (hex_id 2) []) of Some ds \<Rightarrow> ds
         | None \<Rightarrow> d_dependencies (example_doc (hex_id 2) False [hex_id 1] True 1)) \<and>
      p_dependencies (deps_payload (hex_id 2) []) = Some []"
    by code_simp
  have h4: "truthy (p_id (deps_payload (hex_id 2) [hex_id 1])) \<and>
      castObjectId (example_env 5) (str_of (p_id (deps_payload (hex_id 2) [hex_id 1])))
        = Some (hex_id 2) \<and>
      docById (hex_id 2) ?docs2 = Some (example_doc (hex_id 2) False [] False 1) \<and>
      castable (example_env 5)
        (case p_dependencies (deps_payload (hex_id 2) [hex_id 1]) of Some ds \<Rightarrow> ds
         | None \<Rightarrow> d_dependencies (example_doc (hex_id 2) False [] False 1))"
    by code_simp
  have ev4: "map_option d_dependencies (docById (hex_id 2)
      (fst (edit_mongo (example_env 5) (deps_payload (hex_id 2) [hex_id 1]) ?docs2)))
      = Some [hex_id 1]"
    by code_simp
  note a = locked_tasks_have_dependencies [of locking_requests "deps_payload ''b'' []" ?s 0
      "example_env 5" "hex_id 2" ?docs1 "example_doc (hex_id 2) False [hex_id 1] True 1"]
  note b = locked_tasks_have_dependencies [of locking_requests "deps_payload (hex_id 2) []" ?s 0
      "example_env 5" "hex_id 2" ?docs1 "example_doc (hex_id 2) False [hex_id 1] True 1"]
  note c = locked_tasks_have_dependencies [of locking_requests
      "deps_payload (hex_id 2) [hex_id 1]" ?s 0
      "example_env 5" "hex_id 2" ?docs2 "example_doc (hex_id 2) False [] False 1"]
  from a h1 h2 have 1: "list_all no_lock_without_deps_doc (run_mongo locking_requests [])"
    "list_all no_lock_without_deps (run_mem locking_requests [])"
    "t_locked (fst (edit_mem (example_env 5) (deps_payload ''b'' []) ?s) ! 0) = Some False"
    by blast+
  from b h3 have 2: "\<exists>d'. docById (hex_id 2)
      (fst (edit_mongo (example_env 5) (deps_payload (hex_id 2) []) ?docs1)) = Some d' \<and>
      \<not> d_locked d'"
    by blast
  from c h4 ev4 have 3: "\<exists>d'. docById (hex_id 2)
      (fst (edit_mongo (example_env 5) (deps_payload (hex_id 2) [hex_id 1]) ?docs2)) = Some d' \<and>
      d_dependencies d' = [hex_id 1] \<and>
      lock_consistent_mongo (example_env 5)
        (fst (edit_mongo (example_env 5) (deps_payload (hex_id 2) [hex_id 1]) ?docs2)) d'"
    by auto
  from h1 ev 1 2 3 show ?thesis by blast
qed

text \<open>
  C3. Priority escalation. The due instant is the one the operation's own \<^verbatim>\<open>dueDate\<close> and
  \<^verbatim>\<open>dueTime\<close> name, and a priority counts as supplied when it is truthy
  (\<^verbatim>\<open>todo.priority || auto || 'low'\<close>). The derivation gives \<^verbatim>\<open>'high'\<close> up to 24 hours
  ahead (overdue included), \<^verbatim>\<open>'medium'\<close> up to 72 hours, nothing beyond or without a
  readable date. Both \<^verbatim>\<open>todo:add\<close> branches and both \<^verbatim>\<open>todo:edit\<close> branches store the
  supplied priority when there is one, else the derived one, else \<^verbatim>\<open>'low'\<close> when no
  priority is available (the in-memory edit first falls back to the stored priority, the
  MongoDB edit does not). The MongoDB add is one that stores its document: its text is
  not empty and its dependencies are \<^verbatim>\<open>ObjectId\<close> strings.
\<close>

theorem priority_derivation:
  "(truthy dd \<and> dueTarget e dd dt = Some target \<longrightarrow>
      computePriorityByDue e dd dt =
        (if target - int (now e) \<le> day then Str ''high''
         else if target - int (now e) \<le> 3 * day then Str ''medium''
         else Null)) \<and>
   (\<not> truthy dd \<or> dueTarget e dd dt = None \<longrightarrow> computePriorityByDue e dd dt = Null) \<and>
   t_priority (hd (fst (add_mem e p s))) =
     (if truthy (p_priority p) then p_priority p
      else if computePriorityByDue e (p_dueDate p) (p_dueTime p) = Null then Str ''low''
      else computePriorityByDue e (p_dueDate p) (p_dueTime p)) \<and>
   (truthy (p_text p) \<and> objectId e 0 \<notin> d_id ` set docs \<and>
    castable e (case p_dependencies p of Some ds \<Rightarrow> ds | None \<Rightarrow> []) \<longrightarrow>
      d_priority (last (fst (add_mongo e p docs))) =
        (if truthy (p_priority p) then p_priority p
         else if computePriorityByDue e (p_dueDate p) (p_dueTime p) = Null then Str ''low''
         else computePriorityByDue e (p_dueDate p) (p_dueTime p))) \<and>
   (truthy (p_id p) \<and> findIndex (\<lambda>x. t_id x = p_id p) s = Some idx \<longrightarrow>
      t_priority (fst (edit_mem e p s) ! idx) =
        (if truthy (p_priority p) then p_priority p
         else if computePriorityByDue e (p_dueDate p) (p_dueTime p) \<noteq> Null
           then computePriorityByDue e (p_dueDate p) (p_dueTime p)
         else if truthy (t_priority (s ! idx)) then t_priority (s ! idx)
         else Str ''low'')) \<and>
   (truthy (p_id p) \<and> castObjectId e (str_of (p_id p)) = Some oid \<and>
    docById oid docs = Some d \<longrightarrow>
      map_option d_priority (docById oid (fst (edit_mongo e p docs))) =
        Some (if truthy (p_priority p) then p_priority p
              else if computePriorityByDue e (p_dueDate p) (p_dueTime p) \<noteq> Null
                then computePriorityByDue e (p_dueDate p) (p_dueTime p)
              else Str ''low''))"
proof -
  let ?auto = "computePriorityByDue e (p_dueDate p) (p_dueTime p)"
  have auto_truthy: "truthy ?auto \<longleftrightarrow> ?auto \<noteq> Null"
    using computePriorityByDue_range [of e "p_dueDate p" "p_dueTime p"] by auto
  have chain: "jor (p_priority p) (jor ?auto (Str ''low'')) =
      (if truthy (p_priority p) then p_priority p
       else if ?auto = Null then Str ''low'' else ?auto)"
    using auto_truthy by (simp add: jor_def)
  have d1: "truthy dd \<and> dueTarget e dd dt = Some target \<longrightarrow>
      computePriorityByDue e dd dt =
        (if target - int (now e) \<le> day then Str ''high''
         else if target - int (now e) \<le> 3 * day then Str ''medium''
         else Null)"
    by (auto simp: computePriorityByDue_def Let_def day_def)
  have d2: "\<not> truthy dd \<or> dueTarget e dd dt = None \<longrightarrow> computePriorityByDue e dd dt = Null"
    by (auto simp: computePriorityByDue_none)
  have a1: "t_priority (hd (fst (add_mem e p s))) =
     (if truthy (p_priority p) then p_priority p
      else if ?auto = Null then Str ''low'' else ?auto)"
    by (simp add: add_mem_store chain)
  have a2: "truthy (p_text p) \<and> objectId e 0 \<notin> d_id ` set docs \<and>
      castable e (case p_dependencies p of Some ds \<Rightarrow> ds | None \<Rightarrow> []) \<longrightarrow>
      d_priority (last (fst (add_mongo e p docs))) =
        (if truthy (p_priority p) then p_priority p
         else if ?auto = Null then Str ''low'' else ?auto)"
  proof (intro impI, elim conjE)
    assume h: "truthy (p_text p)" "objectId e 0 \<notin> d_id ` set docs"
      and c: "castable e (case p_dependencies p of Some ds \<Rightarrow> ds | None \<Rightarrow> [])"
    from computeLockedFor_mongo_castable [OF c, of docs] obtain l where
      "computeLockedFor_mongo e docs (case p_dependencies p of Some ds \<Rightarrow> ds | None \<Rightarrow> []) = Inr l"
      by blast
    with h show "d_priority (last (fst (add_mongo e p docs))) =
        (if truthy (p_priority p) then p_priority p
         else if ?auto = Null then Str ''low'' else ?auto)"
      by (simp add: add_mongo_store chain)
  qed
  have e1: "truthy (p_id p) \<and> findIndex (\<lambda>x. t_id x = p_id p) s = Some idx \<longrightarrow>
      t_priority (fst (edit_mem e p s) ! idx) =
        (if truthy (p_priority p) then p_priority p
         else if ?auto \<noteq> Null then ?auto
         else if truthy (t_priority (s ! idx)) then t_priority (s ! idx)
         else Str ''low'')"
  proof (intro impI, elim conjE)
    assume h: "truthy (p_id p)" "findIndex (\<lambda>x. t_id x = p_id p) s = Some idx"
    from findIndex_Some [OF h(2)] have "idx < length s" by simp
    then show "t_priority (fst (edit_mem e p s) ! idx) =
        (if truthy (p_priority p) then p_priority p
         else if ?auto \<noteq> Null then ?auto
         else if truthy (t_priority (s ! idx)) then t_priority (s ! idx)
         else Str ''low'')"
      using auto_truthy by (simp add: edit_mem_store [OF h] jor_def)
  qed
  have e2: "truthy (p_id p) \<and> castObjectId e (str_of (p_id p)) = Some oid \<and>
      docById oid docs = Some d \<longrightarrow>
      map_option d_priority (docById oid (fst (edit_mongo e p docs))) =
        Some (if truthy (p_priority p) then p_priority p
              else if ?auto \<noteq> Null then ?auto
              else Str ''low'')"
    using auto_truthy by (auto simp: edit_mongo_doc jor_def split: sum.splits)
  from d1 d2 a1 a2 e1 e2 show ?thesis by blast
qed

theorem priority_derivation_witness:
  "computePriorityByDue calendar_env (Str ''2026-01-01'') Undefined = Str ''high'' \<and>
   t_priority (hd (fst (add_mem calendar_env
      (due_payload (Str (hex_id 1)) Undefined (Str ''2026-01-01'') Undefined)
      [example_todo (hex_id 1) False [] False 0]))) = Str ''high'' \<and>
   d_priority (last (fst (add_mongo calendar_env
      (due_payload (Str (hex_id 1)) Undefined (Str ''2026-01-01'') Undefined)
      [example_doc (hex_id 1) False [] False 0]))) = Str ''high'' \<and>
   t_priority (fst (edit_mem calendar_env
      (due_payload (Str (hex_id 1)) Undefined (Str ''2026-01-01'') Undefined)
      [example_todo (hex_id 1) False [] False 0]) ! 0) = Str ''high'' \<and>
   map_option d_priority (docById (hex_id 1) (fst (edit_mongo calendar_env
      (due_payload (Str (hex_id 1)) Undefined (Str ''2026-01-01'') Undefined)
      [example_doc (hex_id 1) False [] False 0]))) = Some (Str ''high'') \<and>
   computePriorityByDue calendar_env (Str ''2026-01-03'') (Str ''09:30'') = Str ''medium'' \<and>
   t_priority (hd (fst (add_mem calendar_env
      (due_payload (Str (hex_id 1)) (Str ''urgent'') (Str ''2026-01-03'') (Str ''09:30''))
      [example_todo (hex_id 1) False [] False 0]))) = Str ''urgent'' \<and>
   t_priority (fst (edit_mem calendar_env
      (due_payload (Str (hex_id 1)) (Str ''urgent'') (Str ''2026-01-03'') (Str ''09:30''))
      [example_todo (hex_id 1) False [] False 0]) ! 0) = Str ''urgent'' \<and>
   computePriorityByDue calendar_env (Str ''2026-01-11'') Undefined = Null \<and>
   computePriorityByDue calendar_env Undefined (Str ''09:30'') = Null \<and>
   d_priority (last (fst (add_mongo calendar_env
      (due_payload (Str (hex_id 1)) Undefined (Str ''2026-01-11'') Undefined)
      [example_doc (hex_id 1) False [] False 0]))) = Str ''low''"
proof -
  let ?s = "[example_todo (hex_id 1) False [] False 0]"
  let ?docs = "[example_doc (hex_id 1) False [] False 0]"
  let ?d = "example_doc (hex_id 1) False [] False 0"
  let ?p1 = "due_payload (Str (hex_id 1)) Undefined (Str ''2026-01-01'') Undefined"
  let ?p2 = "due_payload (Str (hex_id 1)) (Str ''urgent'') (Str ''2026-01-03'') (Str ''09:30'')"
  let ?p3 = "due_payload (Str (hex_id 1)) Undefined (Str ''2026-01-11'') Undefined"
  have store: "objectId calendar_env 0 \<notin> d_id ` set ?docs"
    "castObjectId calendar_env (hex_id 1) = Some (hex_id 1)"
    "docById (hex_id 1) ?docs = Some ?d"
    "findIndex (\<lambda>x. t_id x = Str (hex_id 1)) ?s = Some 0"
    "truthy (Str (hex_id 1))"
    "\<not> truthy (t_priority (?s ! 0)) \<or> t_priority (?s ! 0) = Str ''low''"
    by code_simp+
  have dates: "dueTarget calendar_env (Str ''2026-01-01'') Undefined = Some (1000 + 3600000)"
    "dueTarget calendar_env (Str ''2026-01-03'') (Str ''09:30'') = Some (1000 + 2 * day)"
    "dueTarget calendar_env (Str ''2026-01-11'') Undefined = Some (1000 + 10 * day)"
    "now calendar_env = 1000"
    by (simp_all add: dueTarget_def calendar_env_def calendar_def)
  have pl: "p_id (due_payload i pr dd dt) = i" "p_priority (due_payload i pr dd dt) = pr"
    "p_dueDate (due_payload i pr dd dt) = dd" "p_dueTime (due_payload i pr dd dt) = dt"
    "truthy (p_text (due_payload i pr dd dt))" "p_dependencies (due_payload i pr dd dt) = None"
    for i pr dd dt
    by (simp_all add: due_payload_def)
  note A = priority_derivation [of "Str ''2026-01-01''" calendar_env Undefined "1000 + 3600000"
        ?p1 ?s ?docs 0 "hex_id 1" ?d]
  note B = priority_derivation [of "Str ''2026-01-03''" calendar_env "Str ''09:30''" "1000 + 2 * day"
        ?p2 ?s ?docs 0 "hex_id 1" ?d]
  note C = priority_derivation [of "Str ''2026-01-11''" calendar_env Undefined "1000 + 10 * day"
        ?p3 ?s ?docs 0 "hex_id 1" ?d]
  note D = priority_derivation [of Undefined calendar_env "Str ''09:30''" 0
        ?p3 ?s ?docs 0 "hex_id 1" ?d]
  have high: "computePriorityByDue calendar_env (Str ''2026-01-01'') Undefined = Str ''high''"
    using A [THEN conjunct1] dates by (simp add: day_def)
  have medium: "computePriorityByDue calendar_env (Str ''2026-01-03'') (Str ''09:30'') = Str ''medium''"
    using B [THEN conjunct1] dates by (simp add: day_def)
  have none: "computePriorityByDue calendar_env (Str ''2026-01-11'') Undefined = Null"
    using C [THEN conjunct1] dates by (simp add: day_def)
  have undef: "computePriorityByDue calendar_env Undefined (Str ''09:30'') = Null"
    using D [THEN conjunct2, THEN conjunct1] by simp
  have add_mem_high: "t_priority (hd (fst (add_mem calendar_env ?p1 ?s))) = Str ''high''"
    using A [THEN conjunct2, THEN conjunct2, THEN conjunct1] by (simp add: pl high)
  have add_mongo_high: "d_priority (last (fst (add_mongo calendar_env ?p1 ?docs))) = Str ''high''"
    using A [THEN conjunct2, THEN conjunct2, THEN conjunct2, THEN conjunct1] store(1)
    by (simp add: pl high castable_def)
  have edit_mem_high: "t_priority (fst (edit_mem calendar_env ?p1 ?s) ! 0) = Str ''high''"
    using A [THEN conjunct2, THEN conjunct2, THEN conjunct2, THEN conjunct2, THEN conjunct1]
      store(4,5)
    by (simp add: pl high)
  have edit_mongo_high: "map_option d_priority (docById (hex_id 1)
      (fst (edit_mongo calendar_env ?p1 ?docs))) = Some (Str ''high'')"
    using A [THEN conjunct2, THEN conjunct2, THEN conjunct2, THEN conjunct2, THEN conjunct2]
      store(2,3,5)
    by (simp add: pl high)
  have add_mem_urgent: "t_priority (hd (fst (add_mem calendar_env ?p2 ?s))) = Str ''urgent''"
    using B [THEN conjunct2, THEN conjunct2, THEN conjunct1] by (simp add: pl)
  have edit_mem_urgent: "t_priority (fst (edit_mem calendar_env ?p2 ?s) ! 0) = Str ''urgent''"
    using B [THEN conjunct2, THEN conjunct2, THEN conjunct2, THEN conjunct2, THEN conjunct1]
      store(4,5)
    by (simp add: pl)
  have add_mongo_low: "d_priority (last (fst (add_mongo calendar_env ?p3 ?docs))) = Str ''low''"
    using C [THEN conjunct2, THEN conjunct2, THEN conjunct2, THEN conjunct1] store(1)
    by (simp add: pl none castable_def)
  from high medium none undef add_mem_high add_mongo_high edit_mem_high edit_mongo_high
    add_mem_urgent edit_mem_urgent add_mongo_low
  show ?thesis by blast
qed

text \<open>
  C4. The claim: completing \<open>T\<close>, the sole incomplete dependency of the locked task \<open>B\<close>,
  unlocks \<open>B\<close> and broadcasts one update and one reminder for it after \<open>T\<close>'s own update.
  \<open>B\<close> below depends on \<open>T\<close> and on an id that names no task, which the specification
  counts as satisfied. The MongoDB branch unlocks \<open>B\<close> and sends the three messages, as it
  does for every sole blocker when the dependencies of the dependents are \<^verbatim>\<open>ObjectId\<close>
  strings (\<open>toggle_mongo_sole_blocker\<close>, \<open>toggle_mongo_other_dependents\<close>,
  \<open>toggle_mongo_to_open\<close>). The in-memory branch recomputes the lock with
  \<^verbatim>\<open>!(t && t.completed)\<close>, finds \<open>B\<close> still blocked by the missing task, leaves it locked and
  sends \<open>T\<close>'s update only; it does what the claim says when every other dependency names a
  completed task of the store (\<open>toggle_mem_sole_blocker\<close>).
\<close>

theorem toggle_mem_dangling_dependency_stays_locked:
  "map t_id (run_mem dangling_requests []) = [Str ''m_2'', Str ''m_1''] \<and>
   map t_locked (run_mem dangling_requests []) = [Some True, Some False] \<and>
   map t_locked (fst (handleMessage_mem (example_env 3) (TodoToggle (Str ''m_1''))
     (run_mem dangling_requests []))) = [Some True, Some False] \<and>
   length (snd (handleMessage_mem (example_env 3) (TodoToggle (Str ''m_1''))
     (run_mem dangling_requests []))) = 1 \<and>
   map d_id (run_mongo dangling_requests_mongo []) = [hex_id 10, hex_id 20] \<and>
   map d_locked (run_mongo dangling_requests_mongo []) = [False, True] \<and>
   map d_locked (fst (handleMessage_mongo (example_env 3) (TodoToggle (Str (hex_id 10)))
     (run_mongo dangling_requests_mongo []))) = [False, False] \<and>
   drop 2 (snd (handleMessage_mongo (example_env 3) (TodoToggle (Str (hex_id 10)))
     (run_mongo dangling_requests_mongo []))) =
     [Broadcast (Reminder (Str (hex_id 20)) ''A dependency finished - this task is unlocked.'')]"
  by code_simp

text \<open>
  C5. The claim: an edit changes only the fields its payload names, \<open>locked\<close> being
  recomputed when \<^verbatim>\<open>dependencies\<close> is supplied. Both branches recompute \<open>locked\<close> on every
  edit (\<^verbatim>\<open>// recompute locked\<close>, \<^verbatim>\<open>// ensure locked reflects current dependency state\<close>),
  so an edit that only renames a task whose cached lock is stale changes \<open>locked\<close>.
\<close>

theorem edit_recomputes_locked_counterexample:
  "p_dependencies (rename_payload ''m_2'') = None \<and>
   map t_id (run_mem stale_requests []) = [Str ''m_2'', Str ''m_1''] \<and>
   t_locked (run_mem stale_requests [] ! 0) = Some False \<and>
   t_locked (fst (edit_mem (example_env 5) (rename_payload ''m_2'') (run_mem stale_requests [])) ! 0)
     = Some True \<and>
   p_dependencies (rename_payload (hex_id 20)) = None \<and>
   map d_locked (run_mongo stale_requests_mongo []) = [False, False] \<and>
   map d_locked (fst (edit_mongo (example_env 5) (rename_payload (hex_id 20))
     (run_mongo stale_requests_mongo []))) = [False, True]"
  by code_simp

text \<open>
  C5, as amended. An edit of an existing task leaves every other task as it was and keeps
  the task's id, completion and position; text, category, due date, due time and
  dependencies keep their values unless the payload supplies them; \<open>locked\<close> is always
  recomputed from the task's dependencies after the edit (in MongoDB: when these are all
  \<^verbatim>\<open>ObjectId\<close> strings). A supplied priority is stored; in memory the priority is kept
  when the payload supplies none and no escalation is derived (what the MongoDB branch
  stores then is not part of this statement).
\<close>

theorem edit_frame:
  "(truthy (p_id p) \<and> findIndex (\<lambda>x. t_id x = p_id p) s = Some idx \<longrightarrow>
      length (fst (edit_mem e p s)) = length s \<and>
      (\<forall>j<length s. j \<noteq> idx \<longrightarrow> fst (edit_mem e p s) ! j = s ! j) \<and>
      t_id (fst (edit_mem e p s) ! idx) = t_id (s ! idx) \<and>
      t_completed (fst (edit_mem e p s) ! idx) = t_completed (s ! idx) \<and>
      t_position (fst (edit_mem e p s) ! idx) = t_position (s ! idx) \<and>
      (p_text p = Undefined \<longrightarrow> t_text (fst (edit_mem e p s) ! idx) = t_text (s ! idx)) \<and>
      (p_category p = Undefined \<longrightarrow>
         t_category (fst (edit_mem e p s) ! idx) = t_category (s ! idx)) \<and>
      (p_dueDate p = Undefined \<longrightarrow>
         t_dueDate (fst (edit_mem e p s) ! idx) = t_dueDate (s ! idx)) \<and>
      (p_dueTime p = Undefined \<longrightarrow>
         t_dueTime (fst (edit_mem e p s) ! idx) = t_dueTime (s ! idx)) \<and>
      (p_dependencies p = None \<longrightarrow>
         t_dependencies (fst (edit_mem e p s) ! idx) = t_dependencies (s ! idx)) \<and>
      (\<not> truthy (p_priority p) \<and> truthy (t_priority (s ! idx)) \<and>
       (\<not> truthy (p_dueDate p) \<or> computePriorityByDue e (p_dueDate p) (p_dueTime p) = Null) \<longrightarrow>
         t_priority (fst (edit_mem e p s) ! idx) = t_priority (s ! idx)) \<and>
      (truthy (p_priority p) \<longrightarrow> t_priority (fst (edit_mem e p s) ! idx) = p_priority p) \<and>
      t_locked (fst (edit_mem e p s) ! idx) =
        Some (computeLockedFor_mem s
          (case t_dependencies (fst (edit_mem e p s) ! idx) of Some ds \<Rightarrow> ds | None \<Rightarrow> []))) \<and>
   (truthy (p_id p) \<and> castObjectId e (str_of (p_id p)) = Some oid \<and>
    docById oid docs = Some d \<longrightarrow>
      length (fst (edit_mongo e p docs)) = length docs \<and>
      (\<forall>j<length docs. d_id (docs ! j) \<noteq> oid \<longrightarrow>
         fst (edit_mongo e p docs) ! j = docs ! j) \<and>
      (\<exists>d'. docById oid (fst (edit_mongo e p docs)) = Some d' \<and>
         d_id d' = d_id d \<and> d_completed d' = d_completed d \<and>
         d_position d' = d_position d \<and> d_createdAt d' = d_createdAt d \<and>
         (p_text p = Undefined \<longrightarrow> d_text d' = d_text d) \<and>
         (p_category p = Undefined \<longrightarrow> d_category d' = d_category d) \<and>
         (p_dueDate p = Undefined \<longrightarrow> d_dueDate d' = d_dueDate d) \<and>
         (p_dueTime p = Undefined \<longrightarrow> d_dueTime d' = d_dueTime d) \<and>
         (p_dependencies p = None \<longrightarrow> d_dependencies d' = d_dependencies d) \<and>
         (truthy (p_priority p) \<longrightarrow> d_priority d' = p_priority p) \<and>
         (castable e (d_dependencies d') \<longrightarrow>
            computeLockedFor_mongo e docs (d_dependencies d') = Inr (d_locked d'))))"
proof (intro conjI impI; elim conjE)
  assume h: "truthy (p_id p)" "findIndex (\<lambda>x. t_id x = p_id p) s = Some idx"
  from findIndex_Some [OF h(2)] have idx: "idx < length s" by simp
  note st = edit_mem_store [OF h, of e]
  show "length (fst (edit_mem e p s)) = length s"
    by (simp add: st)
  show "\<forall>j<length s. j \<noteq> idx \<longrightarrow> fst (edit_mem e p s) ! j = s ! j"
    by (simp add: st)
  show "t_id (fst (edit_mem e p s) ! idx) = t_id (s ! idx)"
    using idx by (simp add: st)
  show "t_completed (fst (edit_mem e p s) ! idx) = t_completed (s ! idx)"
    using idx by (simp add: st)
  show "t_position (fst (edit_mem e p s) ! idx) = t_position (s ! idx)"
    using idx by (simp add: st)
  show "t_locked (fst (edit_mem e p s) ! idx) =
        Some (computeLockedFor_mem s
          (case t_dependencies (fst (edit_mem e p s) ! idx) of Some ds \<Rightarrow> ds | None \<Rightarrow> []))"
    using idx by (simp add: st)
  {
    assume "p_text p = Undefined"
    then show "t_text (fst (edit_mem e p s) ! idx) = t_text (s ! idx)"
      using idx by (simp add: st)
  next
    assume "p_category p = Undefined"
    then show "t_category (fst (edit_mem e p s) ! idx) = t_category (s ! idx)"
      using idx by (simp add: st)
  next
    assume "p_dueDate p = Undefined"
    then show "t_dueDate (fst (edit_mem e p s) ! idx) = t_dueDate (s ! idx)"
      using idx by (simp add: st)
  next
    assume "p_dueTime p = Undefined"
    then show "t_dueTime (fst (edit_mem e p s) ! idx) = t_dueTime (s ! idx)"
      using idx by (simp add: st)
  next
    assume "p_dependencies p = None"
    then show "t_dependencies (fst (edit_mem e p s) ! idx) = t_dependencies (s ! idx)"
      using idx by (simp add: st)
  next
    assume a: "\<not> truthy (p_priority p)" "truthy (t_priority (s ! idx))"
      "\<not> truthy (p_dueDate p) \<or> computePriorityByDue e (p_dueDate p) (p_dueTime p) = Null"
    from a(3) have "computePriorityByDue e (p_dueDate p) (p_dueTime p) = Null"
      by (auto simp: computePriorityByDue_none)
    with a(1,2) show "t_priority (fst (edit_mem e p s) ! idx) = t_priority (s ! idx)"
      using idx by (simp add: st jor_def)
  next
    assume "truthy (p_priority p)"
    then show "t_priority (fst (edit_mem e p s) ! idx) = p_priority p"
      using idx by (simp add: st jor_def)
  }
next
  assume h: "truthy (p_id p)" "castObjectId e (str_of (p_id p)) = Some oid"
    "docById oid docs = Some d"
  show "length (fst (edit_mongo e p docs)) = length docs"
    using edit_mongo_others [of e p docs] by simp
  show "\<forall>j<length docs. d_id (docs ! j) \<noteq> oid \<longrightarrow>
         fst (edit_mongo e p docs) ! j = docs ! j"
    using edit_mongo_others [of e p docs] h(2) by simp
  define deps where "deps = (case p_dependencies p of Some ds \<Rightarrow> ds | None \<Rightarrow> d_dependencies d)"
  define d' where "d' = (case computeLockedFor_mongo e docs deps of
      Inl err \<Rightarrow> edit_fields_mongo e p d
    | Inr l \<Rightarrow> (edit_fields_mongo e p d) \<lparr> d_locked := l \<rparr>)"
  have found: "docById oid (fst (edit_mongo e p docs)) = Some d'"
    using edit_mongo_doc [OF h] by (simp add: d'_def deps_def)
  have dd: "d_dependencies d' = deps"
    by (simp add: d'_def deps_def split: sum.splits)
  have lock: "castable e (d_dependencies d') \<longrightarrow>
      computeLockedFor_mongo e docs (d_dependencies d') = Inr (d_locked d')"
    unfolding dd
    by (cases "computeLockedFor_mongo e docs deps")
       (auto simp: d'_def computeLockedFor_mongo_error)
  have sel: "d_id d' = d_id d" "d_completed d' = d_completed d"
    "d_position d' = d_position d" "d_createdAt d' = d_createdAt d"
    "d_text d' = d_text (edit_fields_mongo e p d)"
    "d_category d' = d_category (edit_fields_mongo e p d)"
    "d_dueDate d' = d_dueDate (edit_fields_mongo e p d)"
    "d_dueTime d' = d_dueTime (edit_fields_mongo e p d)"
    "d_priority d' = d_priority (edit_fields_mongo e p d)"
    by (cases "computeLockedFor_mongo e docs deps"; simp add: d'_def)+
  show "\<exists>d'. docById oid (fst (edit_mongo e p docs)) = Some d' \<and>
         d_id d' = d_id d \<and> d_completed d' = d_completed d \<and>
         d_position d' = d_position d \<and> d_createdAt d' = d_createdAt d \<and>
         (p_text p = Undefined \<longrightarrow> d_text d' = d_text d) \<and>
         (p_category p = Undefined \<longrightarrow> d_category d' = d_category d) \<and>
         (p_dueDate p = Undefined \<longrightarrow> d_dueDate d' = d_dueDate d) \<and>
         (p_dueTime p = Undefined \<longrightarrow> d_dueTime d' = d_dueTime d) \<and>
         (p_dependencies p = None \<longrightarrow> d_dependencies d' = d_dependencies d) \<and>
         (truthy (p_priority p) \<longrightarrow> d_priority d' = p_priority p) \<and>
         (castable e (d_dependencies d') \<longrightarrow>
            computeLockedFor_mongo e docs (d_dependencies d') = Inr (d_locked d'))"
  proof (intro exI [of _ d'] conjI impI)
    show "docById oid (fst (edit_mongo e p docs)) = Some d'" by (rule found)
    show "castable e (d_dependencies d') \<Longrightarrow>
      computeLockedFor_mongo e docs (d_dependencies d') = Inr (d_locked d')"
      using lock by simp
  qed (simp_all add: sel dd deps_def jor_def)
qed

theorem edit_frame_witness:
  "length (fst (edit_mem (example_env 5) (rename_payload ''b'')
      [(example_todo ''b'' False [''a''] False 1) \<lparr> t_priority := Str ''high'' \<rparr>,
       example_todo ''a'' False [] False 0])) = 2 \<and>
   fst (edit_mem (example_env 5) (rename_payload ''b'')
      [(example_todo ''b'' False [''a''] False 1) \<lparr> t_priority := Str ''high'' \<rparr>,
       example_todo ''a'' False [] False 0]) ! 1
     = example_todo ''a'' False [] False 0 \<and>
   t_dependencies (fst (edit_mem (example_env 5) (rename_payload ''b'')
      [(example_todo ''b'' False [''a''] False 1) \<lparr> t_priority := Str ''high'' \<rparr>,
       example_todo ''a'' False [] False 0]) ! 0)
     = Some [''a''] \<and>
   t_priority (fst (edit_mem (example_env 5) (rename_payload ''b'')
      [(example_todo ''b'' False [''a''] False 1) \<lparr> t_priority := Str ''high'' \<rparr>,
       example_todo ''a'' False [] False 0]) ! 0)
     = Str ''high'' \<and>
   t_locked (fst (edit_mem (example_env 5) (rename_payload ''b'')
      [(example_todo ''b'' False [''a''] False 1) \<lparr> t_priority := Str ''high'' \<rparr>,
       example_todo ''a'' False [] False 0]) ! 0)
     = Some True \<and>
   fst (edit_mongo (example_env 5) (rename_payload (hex_id 2))
      [example_doc (hex_id 1) False [] False 0, example_doc (hex_id 2) False [hex_id 1] False 1]) ! 0
     = example_doc (hex_id 1) False [] False 0 \<and>
   (\<exists>d'. docById (hex_id 2) (fst (edit_mongo (example_env 5) (rename_payload (hex_id 2))
      [example_doc (hex_id 1) False [] False 0,
       example_doc (hex_id 2) False [hex_id 1] False 1])) = Some d' \<and>
      d_position d' = 1 \<and> d_dependencies d' = [hex_id 1] \<and> d_locked d' = True)"
proof -
  let ?b = "(example_todo ''b'' False [''a''] False 1) \<lparr> t_priority := Str ''high'' \<rparr>"
  let ?s = "[?b, example_todo ''a'' False [] False 0]"
  let ?B = "example_doc (hex_id 2) False [hex_id 1] False 1"
  let ?docs = "[example_doc (hex_id 1) False [] False 0, ?B]"
  let ?p = "rename_payload ''b''"
  let ?q = "rename_payload (hex_id 2)"
  have pl: "p_text (rename_payload i) \<noteq> Undefined" "p_category (rename_payload i) = Undefined"
    "p_dueDate (rename_payload i) = Undefined" "p_dueTime (rename_payload i) = Undefined"
    "p_dependencies (rename_payload i) = None" "\<not> truthy (p_priority (rename_payload i))"
    "\<not> truthy (p_dueDate (rename_payload i))" for i
    by (simp_all add: rename_payload_def)
  have h1: "truthy (p_id ?p) \<and> findIndex (\<lambda>x. t_id x = p_id ?p) ?s = Some 0"
    by code_simp
  have h2: "truthy (p_id ?q) \<and> castObjectId (example_env 5) (str_of (p_id ?q)) = Some (hex_id 2) \<and>
      docById (hex_id 2) ?docs = Some ?B"
    by code_simp
  have st: "length ?s = 2" "?s ! 0 = ?b" "?s ! 1 = example_todo ''a'' False [] False 0"
    "t_dependencies ?b = Some [''a'']" "t_priority ?b = Str ''high''"
    "computeLockedFor_mem ?s [''a''] = True"
    by (simp_all add: example_todo_def computeLockedFor_mem_def blocked_mem_def)
  have sd: "length ?docs = 2" "?docs ! 0 = example_doc (hex_id 1) False [] False 0"
    "d_id (?docs ! 0) \<noteq> hex_id 2" "d_position ?B = 1" "d_dependencies ?B = [hex_id 1]"
    "castable (example_env 5) [hex_id 1]"
    "computeLockedFor_mongo (example_env 5) ?docs [hex_id 1] = Inr True"
    by code_simp+
  note A1 = edit_frame [of ?p ?s 0 "example_env 5" "hex_id 2" ?docs ?B, THEN conjunct1,
      rule_format, OF h1]
  note A2 = A1 [THEN conjunct2]
  note A6 = A2 [THEN conjunct2, THEN conjunct2, THEN conjunct2, THEN conjunct2]
  note A10 = A6 [THEN conjunct2, THEN conjunct2, THEN conjunct2, THEN conjunct2]
  note A11 = A10 [THEN conjunct2]
  note A13 = A11 [THEN conjunct2, THEN conjunct2]
  note B1 = edit_frame [of ?q ?s 0 "example_env 5" "hex_id 2" ?docs ?B, THEN conjunct2,
      rule_format, OF h2]
  note B2 = B1 [THEN conjunct2]
  have a1: "length (fst (edit_mem (example_env 5) ?p ?s)) = 2"
    using A1 [THEN conjunct1] by simp
  have a2: "fst (edit_mem (example_env 5) ?p ?s) ! 1 = example_todo ''a'' False [] False 0"
    using A2 [THEN conjunct1, rule_format, of 1] by simp
  have a3: "t_dependencies (fst (edit_mem (example_env 5) ?p ?s) ! 0) = Some [''a'']"
    using A10 [THEN conjunct1] pl(5) st(4) by simp
  have a4: "t_priority (fst (edit_mem (example_env 5) ?p ?s) ! 0) = Str ''high''"
    using A11 [THEN conjunct1] pl(6,7) st(5) by simp
  have a5: "t_locked (fst (edit_mem (example_env 5) ?p ?s) ! 0) = Some True"
    using A13 st(6) by (simp add: a3)
  have b1: "fst (edit_mongo (example_env 5) ?q ?docs) ! 0 = example_doc (hex_id 1) False [] False 0"
    using B2 [THEN conjunct1, rule_format, of 0] sd(3) by simp
  from B2 [THEN conjunct2] have b2: "\<exists>d'. docById (hex_id 2)
      (fst (edit_mongo (example_env 5) ?q ?docs)) = Some d' \<and>
      d_position d' = 1 \<and> d_dependencies d' = [hex_id 1] \<and> d_locked d' = True"
  proof (elim exE conjE)
    fix d'
    assume d': "docById (hex_id 2) (fst (edit_mongo (example_env 5) ?q ?docs)) = Some d'"
      "d_position d' = d_position ?B"
      "p_dependencies ?q = None \<longrightarrow> d_dependencies d' = d_dependencies ?B"
      "castable (example_env 5) (d_dependencies d') \<longrightarrow>
         computeLockedFor_mongo (example_env 5) ?docs (d_dependencies d') = Inr (d_locked d')"
    from d'(3) have dd: "d_dependencies d' = [hex_id 1]"
      by (simp add: pl(5) sd(5) del: One_nat_def)
    from d'(4) have "d_locked d'"
      by (simp add: dd sd(6,7) del: One_nat_def)
    with d'(1,2) dd sd(4) show ?thesis by simp
  qed
  from a1 a2 a3 a4 a5 b1 b2 show ?thesis by (intro conjI)
qed

text \<open>
  C6. The claim: the list sent for \<^verbatim>\<open>sync:request\<close> is ordered by position ascending,
  also after adds. The MongoDB branch of \<^verbatim>\<open>getAllTodos\<close> sorts by position
  (\<open>getAllTodos_mongo_positions_sorted\<close>). The in-memory branch returns the array as it
  is, and \<^verbatim>\<open>todo:add\<close> puts the new task at the front (\<^verbatim>\<open>unshift\<close>) while giving it the
  end-of-list position \<^verbatim>\<open>inMemory.length\<close>: after two adds the list reads position 1, then
  position 0.
\<close>

theorem getAllTodos_mem_newest_first:
  "map t_position (getAllTodos_mem (run_mem
      [(example_env 1, TodoAdd (example_payload ''A'' None)),
       (example_env 2, TodoAdd (example_payload ''B'' None))] [])) = [1, 0] \<and>
   map t_position (getAllTodos_mongo (run_mongo
      [(example_env 1, TodoAdd (example_payload ''A'' None)),
       (example_env 2, TodoAdd (example_payload ''B'' None))] [])) = [0, 1]"
  by code_simp

text \<open>
  C7. The claim: after a reorder every task whose id is \<open>order ! i\<close> has position \<open>i\<close>, and
  ids without a task are synthesized as placeholders. When an id is listed twice no store
  can give its task both positions: the in-memory branch makes one entry per listed id,
  the MongoDB branch keeps the last index. And the MongoDB branch updates by id and
  inserts nothing: an id without a document leaves no trace there.
\<close>

theorem reorder_repeated_id_counterexample:
  "map (\<lambda>t. (t_id t, t_position t)) (fst (reorder_mem [''a'', ''a'']
      [example_todo ''a'' False [] False 0])) = [(Str ''a'', 0), (Str ''a'', 1)] \<and>
   map (\<lambda>d. (d_id d, d_position d)) (fst (reorder_mongo (example_env 5) [hex_id 1, hex_id 1]
      [example_doc (hex_id 1) False [] False 0])) = [(hex_id 1, 1)] \<and>
   map d_id (fst (reorder_mongo (example_env 5) [hex_id 2, hex_id 1]
      [example_doc (hex_id 1) False [] False 0])) = [hex_id 1]"
  by code_simp

text \<open>
  C7, as amended. For an id sequence without repetition, the in-memory branch gives every
  task whose id is \<open>order ! i\<close> the position \<open>i\<close>, and so does the MongoDB branch when the
  listed ids are the string forms of \<^verbatim>\<open>ObjectId\<close>s. The in-memory branch puts the
  placeholder \<^verbatim>\<open>{ id, text: '', completed: false }\<close> at index \<open>i\<close> for an id that is no key
  of the lookup object: no task has it, it is no property name of \<^verbatim>\<open>Object.prototype\<close>,
  and no task has made itself the prototype.
\<close>

theorem reorder_positions:
  assumes "distinct order"
  shows "(\<forall>i<length order. \<forall>t\<in>set (fst (reorder_mem order s)).
            t_id t = Str (order ! i) \<longrightarrow> t_position t = int i) \<and>
         (\<forall>i<length order.
            order ! i \<notin> set object_prototype_keys \<and>
            (\<forall>t\<in>set s. str_of (t_id t) \<noteq> order ! i \<and> str_of (t_id t) \<noteq> ''__proto__'') \<longrightarrow>
            fst (reorder_mem order s) ! i = (placeholder (order ! i)) \<lparr> t_position := int i \<rparr>) \<and>
         ((\<forall>x\<in>set order. canonical e x) \<longrightarrow>
            (\<forall>i<length order. \<forall>d\<in>set (fst (reorder_mongo e order docs)).
               d_id d = order ! i \<longrightarrow> d_position d = int i))"
proof (intro conjI allI impI ballI; (elim conjE)?)
  fix i t
  assume i: "i < length order" and t: "t \<in> set (fst (reorder_mem order s))"
    and eq: "t_id t = Str (order ! i)"
  from t obtain j where j: "j < length order" "t = reorder_entry s (0 + j, order ! j)"
    using reorder_entry_in [of t s 0 order] by (auto simp: reorder_mem_def Let_def)
  with eq have "order ! i = order ! j" by (auto dest: reorder_entry_id)
  with assms i j(1) have "j = i" by (simp add: nth_eq_iff_index_eq)
  with j(2) show "t_position t = int i" by simp
next
  fix i
  assume i: "i < length order" and key: "order ! i \<notin> set object_prototype_keys"
    and miss: "\<forall>t\<in>set s. str_of (t_id t) \<noteq> order ! i \<and> str_of (t_id t) \<noteq> ''__proto__''"
  from miss have "find (\<lambda>t. str_of (t_id t) = order ! i) (rev s) = None"
    by (simp add: find_None_iff)
  with lookup_plain [OF key, of s] miss have "lookup s (order ! i) = Nothing"
    by simp
  with i show "fst (reorder_mem order s) ! i = (placeholder (order ! i)) \<lparr> t_position := int i \<rparr>"
    by (simp add: reorder_mem_nth reorder_entry_def)
next
  fix i d
  assume can: "\<forall>x\<in>set order. canonical e x"
    and i: "i < length order" and d: "d \<in> set (fst (reorder_mongo e order docs))"
    and eq: "d_id d = order ! i"
  from can have "\<forall>ix\<in>set (enumerate 0 order). canonical e (snd ix)"
    by (auto simp: in_set_enumerate_eq)
  from reorder_loop_canonical [OF this, of docs] d
  have d': "d \<in> set (foldl (reorder_step e) docs (enumerate 0 order))"
    by (simp add: reorder_mongo_store)
  from i eq have "(i, d_id d) \<in> set (enumerate 0 order)"
    by (simp add: in_set_enumerate_eq)
  from reorder_fold_position [OF _ d' this] assms show "d_position d = int i"
    by simp
qed

theorem reorder_positions_witness:
  "distinct [''c'', ''a'', ''b''] \<and>
   map (\<lambda>t. (t_id t, t_position t)) (fst (reorder_mem [''c'', ''a'', ''b'']
      [example_todo ''a'' False [] False 0, example_todo ''b'' False [] False 1,
       example_todo ''c'' False [] False 2])) = [(Str ''c'', 0), (Str ''a'', 1), (Str ''b'', 2)] \<and>
   list_all (\<lambda>t. t_id t = Str ''a'' \<longrightarrow> t_position t = 1) (fst (reorder_mem [''c'', ''a'', ''b'']
      [example_todo ''a'' False [] False 0, example_todo ''b'' False [] False 1,
       example_todo ''c'' False [] False 2])) \<and>
   fst (reorder_mem [''c'', ''a'', ''b''] [example_todo ''a'' False [] False 0]) ! 2
     = (placeholder ''b'') \<lparr> t_position := 2 \<rparr> \<and>
   distinct [hex_id 3, hex_id 1, hex_id 2] \<and>
   list_all (canonical (example_env 5)) [hex_id 3, hex_id 1, hex_id 2] \<and>
   map (\<lambda>d. (d_id d, d_position d)) (fst (reorder_mongo (example_env 5)
      [hex_id 3, hex_id 1, hex_id 2]
      [example_doc (hex_id 1) False [] False 0, example_doc (hex_id 2) False [] False 1,
       example_doc (hex_id 3) False [] False 2]))
     = [(hex_id 1, 1), (hex_id 2, 2), (hex_id 3, 0)] \<and>
   list_all (\<lambda>d. d_id d = hex_id 3 \<longrightarrow> d_position d = 0) (fst (reorder_mongo (example_env 5)
      [hex_id 3, hex_id 1, hex_id 2]
      [example_doc (hex_id 1) False [] False 0, example_doc (hex_id 2) False [] False 1,
       example_doc (hex_id 3) False [] False 2]))"
proof -
  let ?s = "[example_todo ''a'' False [] False 0, example_todo ''b'' False [] False 1,
       example_todo ''c'' False [] False 2]"
  let ?s1 = "[example_todo ''a'' False [] False 0]"
  let ?docs = "[example_doc (hex_id 1) False [] False 0, example_doc (hex_id 2) False [] False 1,
       example_doc (hex_id 3) False [] False 2]"
  have d: "distinct [''c'', ''a'', ''b'']" by simp
  have dh: "distinct [hex_id 3, hex_id 1, hex_id 2]" by code_simp
  have ch: "list_all (canonical (example_env 5)) [hex_id 3, hex_id 1, hex_id 2]" by code_simp
  have ev: "map (\<lambda>t. (t_id t, t_position t)) (fst (reorder_mem [''c'', ''a'', ''b''] ?s))
      = [(Str ''c'', 0), (Str ''a'', 1), (Str ''b'', 2)] \<and>
    map (\<lambda>d. (d_id d, d_position d)) (fst (reorder_mongo (example_env 5)
      [hex_id 3, hex_id 1, hex_id 2] ?docs)) = [(hex_id 1, 1), (hex_id 2, 2), (hex_id 3, 0)]"
    by code_simp
  have miss: "[''c'', ''a'', ''b''] ! 2 \<notin> set object_prototype_keys \<and>
      (\<forall>t\<in>set ?s1. str_of (t_id t) \<noteq> [''c'', ''a'', ''b''] ! 2 \<and>
         str_of (t_id t) \<noteq> ''__proto__'')"
    by (simp add: object_prototype_keys_def example_todo_def)
  have 1: "list_all (\<lambda>t. t_id t = Str ''a'' \<longrightarrow> t_position t = 1)
      (fst (reorder_mem [''c'', ''a'', ''b''] ?s))"
    using reorder_positions [OF d, of ?s "example_env 5" ?docs, THEN conjunct1, rule_format, of 1]
    by (simp add: list_all_iff)
  have 2: "fst (reorder_mem [''c'', ''a'', ''b''] ?s1) ! 2 = (placeholder ''b'') \<lparr> t_position := 2 \<rparr>"
    using reorder_positions [OF d, of ?s1 "example_env 5" ?docs, THEN conjunct2, THEN conjunct1,
        rule_format, of 2] miss
    by simp
  have 3: "list_all (\<lambda>d. d_id d = hex_id 3 \<longrightarrow> d_position d = 0)
      (fst (reorder_mongo (example_env 5) [hex_id 3, hex_id 1, hex_id 2] ?docs))"
    using reorder_positions [OF dh, of ?s "example_env 5" ?docs, THEN conjunct2, THEN conjunct2,
        THEN mp, OF ch [unfolded list_all_iff], rule_format, of 0]
    by (simp add: list_all_iff)
  from d dh ch ev 1 2 3 show ?thesis by (intro conjI) simp_all
qed

text \<open>
  C8. The claim: restored snapshots are put ahead of the existing order, their \<open>locked\<close> and
  priority carried over. The in-memory branch does so (\<^verbatim>\<open>[...items, ...inMemory]\<close>). The
  MongoDB branch inserts \<^verbatim>\<open>text\<close>, \<^verbatim>\<open>completed\<close>, \<^verbatim>\<open>category\<close>, \<^verbatim>\<open>priority\<close> and
  \<^verbatim>\<open>position: Date.now() + i\<close> only: the snapshot below, locked by its dependency, comes
  back unlocked and without dependencies, listed after the existing task
  (\<open>restoreMany_stores\<close> has the general statement).
\<close>

theorem restoreMany_mongo_loses_lock:
  "map (\<lambda>t. (t_id t, t_locked t, t_dependencies t)) (getAllTodos_mongo (fst (restoreMany_mongo
      (example_env 50) [example_todo (hex_id 2) False [hex_id 1] True 7]
      [example_doc (hex_id 1) False [] False 0])))
     = [(Str (hex_id 1), Some False, Some []), (Str (hex_id 500), Some False, Some [])] \<and>
   map (\<lambda>t. (t_id t, t_locked t, t_dependencies t)) (fst (restoreMany_mem
      [example_todo ''x'' False [''a''] True 7] [example_todo ''a'' False [] False 0]))
     = [(Str ''x'', Some True, Some [''a'']), (Str ''a'', Some False, Some [])]"
  by code_simp




text \<open>
  C10. After an in-memory reorder the store holds one entry per element of \<open>order\<close>, in
  that order, and nothing else: the entry at index \<open>i\<close> has position \<open>i\<close> and no id other
  than \<open>order ! i\<close>, and a task whose id is not in \<open>order\<close> is gone. When the stored tasks
  have string ids other than \<^verbatim>\<open>__proto__\<close> and no listed id is a property name of
  \<^verbatim>\<open>Object.prototype\<close>, the ids of the entries are exactly the listed ones (an entry made
  from an inherited property has no id). The MongoDB branch leaves a document that no
  listed id names in the collection as it was, position included.
\<close>

theorem reorder_mem_exactly_order:
  "length (fst (reorder_mem order s)) = length order \<and>
   (\<forall>i<length order. t_position (fst (reorder_mem order s) ! i) = int i) \<and>
   (\<forall>i<length order. \<forall>x. t_id (fst (reorder_mem order s) ! i) = Str x \<longrightarrow> x = order ! i) \<and>
   ((\<forall>t\<in>set s. \<exists>x. t_id t = Str x \<and> x \<noteq> ''__proto__'') \<and>
    (\<forall>x\<in>set order. x \<notin> set object_prototype_keys) \<longrightarrow>
      map t_id (fst (reorder_mem order s)) = map Str order) \<and>
   (\<forall>t\<in>set s. \<forall>x. t_id t = Str x \<and> x \<notin> set order \<longrightarrow>
      Str x \<notin> t_id ` set (fst (reorder_mem order s))) \<and>
   (\<forall>d\<in>set docs. Some (d_id d) \<notin> castObjectId e ` set order \<longrightarrow>
      d \<in> set (fst (reorder_mongo e order docs)))"
proof (intro conjI allI impI ballI; (elim conjE)?)
  show "length (fst (reorder_mem order s)) = length order" by simp
next
  fix i assume "i < length order"
  then show "t_position (fst (reorder_mem order s) ! i) = int i"
    by (simp add: reorder_mem_nth)
next
  fix i x
  assume "i < length order" "t_id (fst (reorder_mem order s) ! i) = Str x"
  then show "x = order ! i"
    by (auto simp: reorder_mem_nth dest: reorder_entry_id)
next
  assume ids: "\<forall>t\<in>set s. \<exists>x. t_id t = Str x \<and> x \<noteq> ''__proto__''"
    and keys: "\<forall>x\<in>set order. x \<notin> set object_prototype_keys"
  from ids have np: "\<forall>t\<in>set s. str_of (t_id t) \<noteq> ''__proto__''" by fastforce
  show "map t_id (fst (reorder_mem order s)) = map Str order"
  proof (rule nth_equalityI)
    show "length (map t_id (fst (reorder_mem order s))) = length (map Str order)" by simp
  next
    fix i assume "i < length (map t_id (fst (reorder_mem order s)))"
    then have i: "i < length order" by simp
    with keys have key: "order ! i \<notin> set object_prototype_keys" by simp
    have "t_id (reorder_entry s (i, order ! i)) = Str (order ! i)"
    proof (cases "find (\<lambda>t. str_of (t_id t) = order ! i) (rev s)")
      case None
      with lookup_plain [OF key np] show ?thesis
        by (simp add: reorder_entry_def placeholder_def)
    next
      case (Some t)
      from find_in_set [OF Some] ids obtain x where "t_id t = Str x" "str_of (t_id t) = order ! i"
        by auto
      then have "t_id t = Str (order ! i)" by simp
      with lookup_plain [OF key np] Some show ?thesis
        by (simp add: reorder_entry_def)
    qed
    with i show "map t_id (fst (reorder_mem order s)) ! i = map Str order ! i"
      by (simp add: reorder_mem_nth)
  qed
next
  fix t x
  assume "t \<in> set s" "t_id t = Str x" "x \<notin> set order"
  show "Str x \<notin> t_id ` set (fst (reorder_mem order s))"
  proof
    assume "Str x \<in> t_id ` set (fst (reorder_mem order s))"
    then obtain u where u: "u \<in> set (fst (reorder_mem order s))" "t_id u = Str x" by auto
    from u(1) obtain j where j: "j < length order" "u = reorder_entry s (0 + j, order ! j)"
      using reorder_entry_in [of u s 0 order] by (auto simp: reorder_mem_def Let_def)
    with u(2) have "x = order ! j" by (auto dest: reorder_entry_id)
    with j(1) \<open>x \<notin> set order\<close> show False by simp
  qed
next
  fix d
  assume "d \<in> set docs" "Some (d_id d) \<notin> castObjectId e ` set order"
  then show "d \<in> set (fst (reorder_mongo e order docs))"
    by (simp add: reorder_mongo_store reorder_loop_keeps snd_enumerate_set)
qed

theorem reorder_mem_exactly_order_witness:
  "map t_id (fst (reorder_mem [''c'', ''a''] [example_todo ''a'' False [] False 0,
       example_todo ''b'' False [] False 1])) = [Str ''c'', Str ''a''] \<and>
   map t_position (fst (reorder_mem [''c'', ''a''] [example_todo ''a'' False [] False 0,
       example_todo ''b'' False [] False 1])) = [0, 1] \<and>
   Str ''b'' \<notin> t_id ` set (fst (reorder_mem [''c'', ''a''] [example_todo ''a'' False [] False 0,
       example_todo ''b'' False [] False 1])) \<and>
   length (fst (reorder_mem [''constructor''] [example_todo ''a'' False [] False 0,
       example_todo ''b'' False [] False 1])) = 1 \<and>
   t_id (fst (reorder_mem [''constructor''] [example_todo ''a'' False [] False 0,
       example_todo ''b'' False [] False 1]) ! 0) = Undefined \<and>
   example_doc (hex_id 2) False [] False 1 \<in>
     set (fst (reorder_mongo (example_env 5) [hex_id 3, hex_id 1]
       [example_doc (hex_id 1) False [] False 0, example_doc (hex_id 2) False [] False 1]))"
proof -
  let ?s = "[example_todo ''a'' False [] False 0, example_todo ''b'' False [] False 1]"
  let ?docs = "[example_doc (hex_id 1) False [] False 0, example_doc (hex_id 2) False [] False 1]"
  have h1: "(\<forall>t\<in>set ?s. \<exists>x. t_id t = Str x \<and> x \<noteq> ''__proto__'') \<and>
      (\<forall>x\<in>set [''c'', ''a'']. x \<notin> set object_prototype_keys)"
    by (simp add: example_todo_def object_prototype_keys_def)
  have h2: "example_todo ''b'' False [] False 1 \<in> set ?s \<and>
      t_id (example_todo ''b'' False [] False 1) = Str ''b'' \<and> ''b'' \<notin> set [''c'', ''a'']"
    by (simp add: example_todo_def)
  have h3: "example_doc (hex_id 2) False [] False 1 \<in> set ?docs \<and>
      Some (d_id (example_doc (hex_id 2) False [] False 1)) \<notin>
        castObjectId (example_env 5) ` set [hex_id 3, hex_id 1]"
    by code_simp
  have ev: "map t_position (fst (reorder_mem [''c'', ''a''] ?s)) = [0, 1] \<and>
      t_id (fst (reorder_mem [''constructor''] ?s) ! 0) = Undefined"
    by code_simp
  note A = reorder_mem_exactly_order [of "[''c'', ''a'']" ?s ?docs "example_env 5"]
  note B = reorder_mem_exactly_order [of "[''constructor'']" ?s ?docs "example_env 5"]
  note C = reorder_mem_exactly_order [of "[hex_id 3, hex_id 1]" ?s ?docs "example_env 5"]
  from A h1 have 1: "map t_id (fst (reorder_mem [''c'', ''a''] ?s)) = [Str ''c'', Str ''a'']"
    by simp
  from A h2 have 2: "Str ''b'' \<notin> t_id ` set (fst (reorder_mem [''c'', ''a''] ?s))"
    by blast
  from B have 3: "length (fst (reorder_mem [''constructor''] ?s)) = 1"
    by simp
  from C h3 have 4: "example_doc (hex_id 2) False [] False 1 \<in>
      set (fst (reorder_mongo (example_env 5) [hex_id 3, hex_id 1] ?docs))"
    by blast
  from 1 2 3 4 ev show ?thesis by (intro conjI) simp_all
qed

end
